theory Spec2Isabelle
  imports Main
begin

section \<open>Values, errors and the store\<close>

text \<open>
  The calendar solver of \<^verbatim>\<open>csp_solver.py\<close> schedules \<open>n\<close> meetings, variable \<open>i\<close> being
  meeting \<open>i\<close>. A datetime is modelled by an integer time stamp: the solver only stores
  datetimes, hands them to the constraints and tests them for truth (a datetime is always
  true in Python, \<open>None\<close> never is).

  A Python \<open>set\<close> of datetimes is a list whose order is the set's iteration order; a set
  holds every element once, so the lists that stand for sets are \<open>distinct\<close>.

  Sets are mutable objects that several names can refer to, and \<open>solve\<close> puts one and the
  same caller-owned set into every slot of its list of domains. The model therefore keeps
  the sets in a store: a reference is an address, \<open>objs h p\<close> is the set at address \<open>p\<close>,
  and \<open>nxt h\<close> is the first address that has not been handed out yet.
\<close>

type_synonym datetime = int

datatype error = TypeError | KeyError | IndexError | ValueError

type_synonym addr = nat

record heap =
  objs :: "addr \<Rightarrow> datetime list"
  nxt :: addr

definition alloc :: "heap \<Rightarrow> datetime list \<Rightarrow> heap \<times> addr" where
  "alloc h s = (h\<lparr>objs := (objs h)(nxt h := s), nxt := Suc (nxt h)\<rparr>, nxt h)"

text \<open>\<^verbatim>\<open>s.remove(d)\<close> on the set at address \<open>p\<close>: raises \<open>KeyError\<close> when \<open>d\<close> is not
  in the set.\<close>

definition set_remove :: "heap \<Rightarrow> addr \<Rightarrow> datetime \<Rightarrow> error + heap" where
  "set_remove h p d =
     (if d \<in> set (objs h p)
      then Inr (h\<lparr>objs := (objs h)(p := removeAll d (objs h p))\<rparr>)
      else Inl KeyError)"

text \<open>
  What \<open>date_range\<close>, and so an entry of the list \<open>doms\<close> that \<open>csp_backtracker\<close> builds,
  can be: a reference to one set (\<open>set[datetime]\<close>), or a list of references to sets
  (\<open>list[set[datetime]]\<close>).
\<close>

datatype pyobj = SetRef addr | SetList "addr list"

text \<open>
  \<^verbatim>\<open>set(dom)\<close>: the elements of a new set built from \<open>dom\<close>. Built from a set it is a
  copy. Built from a list it hashes every element of the list; the elements are sets,
  which are unhashable, so a non-empty list raises \<open>TypeError\<close> and the empty list gives
  the empty set.

  The store holds a set as the list of its elements in the order in which a loop over the
  set visits them. Python fixes no such order, and a loop over a copy need not follow the
  order of the original; the model gives the copy the order of the original. A theorem
  about every store holds for every order of the caller's sets. The order decides, among
  other things, which of several schedules the search finds first and how many values it
  tries on the way; the runs on concrete inputs below that count tried values are on
  domains of at most one element.
\<close>

fun py_set :: "heap \<Rightarrow> pyobj \<Rightarrow> error + datetime list" where
  "py_set h (SetRef p) = Inr (objs h p)"
| "py_set h (SetList []) = Inr []"
| "py_set h (SetList (q # qs)) = Inl TypeError"

text \<open>
  \<^verbatim>\<open>for date in dom\<close>: the datetimes the loop of \<open>node_consistency\<close> visits. The loop
  is only reached after \<open>set(dom)\<close> has succeeded for every entry, so the only list it can
  walk over is the empty one.
\<close>

fun dates_of :: "heap \<Rightarrow> pyobj \<Rightarrow> datetime list" where
  "dates_of h (SetRef p) = objs h p"
| "dates_of h (SetList qs) = []"

section \<open>The constraint collaborator\<close>

text \<open>
  Modelled from the spec: the class \<open>DateConstraint\<close> of the module \<open>date_constraints\<close>,
  which \<^verbatim>\<open>csp_solver.py\<close> imports and which is not among the sources. The spec gives its
  interface: a constraint is unary (one variable index \<open>L_VAL\<close>, arity 1, \<open>R_VAL\<close> a
  non-integer sentinel) or binary (two variable indices \<open>L_VAL\<close> and \<open>R_VAL\<close>, arity 2);
  \<open>is_satisfied_by_values\<close> is a pure predicate over one or two datetimes. A variable is an
  index \<open>0..n-1\<close>, hence a natural number. The predicate is kept abstract, so that a
  theorem about all constraints covers every predicate a caller can supply.
\<close>

datatype constraint =
    Unary nat "datetime \<Rightarrow> bool"
  | Binary nat nat "datetime \<Rightarrow> datetime \<Rightarrow> bool"

datatype rval = VarIndex nat | Sentinel

fun arity :: "constraint \<Rightarrow> nat" where
  "arity (Unary l p) = 1"
| "arity (Binary l r q) = 2"

fun L_VAL :: "constraint \<Rightarrow> nat" where
  "L_VAL (Unary l p) = l"
| "L_VAL (Binary l r q) = l"

fun R_VAL :: "constraint \<Rightarrow> rval" where
  "R_VAL (Unary l p) = Sentinel"
| "R_VAL (Binary l r q) = VarIndex r"

text \<open>
  Modelled from the spec: \<open>is_satisfied_by_values(v1[, v2])\<close>. The solver calls it with
  one datetime on unary constraints and with two on binary ones; for a binary constraint
  called with one datetime, which the solver never does, the model answers \<open>False\<close>.
\<close>

fun is_satisfied_by_values :: "constraint \<Rightarrow> datetime \<Rightarrow> datetime option \<Rightarrow> bool" where
  "is_satisfied_by_values (Unary l p) d e = p d"
| "is_satisfied_by_values (Binary l r q) d (Some e) = q d e"
| "is_satisfied_by_values (Binary l r q) d None = False"

text \<open>
  Modelled from the spec: \<open>is_satisfied_by_assignment(assignment)\<close>, a predicate over an
  assignment vector whose unassigned slots are \<open>None\<close>; a referenced slot that is
  unassigned satisfies the constraint, and a variable index outside the vector is the
  fatal error of malformed collaborator input (Python's \<open>IndexError\<close>).
\<close>

fun is_satisfied_by_assignment :: "constraint \<Rightarrow> datetime option list \<Rightarrow> error + bool" where
  "is_satisfied_by_assignment (Unary l p) a =
     (if length a \<le> l then Inl IndexError
      else case a ! l of None \<Rightarrow> Inr True | Some d \<Rightarrow> Inr (p d))"
| "is_satisfied_by_assignment (Binary l r q) a =
     (if length a \<le> l \<or> length a \<le> r then Inl IndexError
      else case a ! l of
             None \<Rightarrow> Inr True
           | Some d \<Rightarrow> (case a ! r of None \<Rightarrow> Inr True | Some e \<Rightarrow> Inr (q d e)))"

text \<open>
  Modelled from the spec: \<open>get_reverse()\<close>, for binary constraints only, swaps \<open>L_VAL\<close> and
  \<open>R_VAL\<close> and evaluates the original relation with its arguments exchanged. The solver
  calls it on constraints of arity above 1 only; on a unary constraint the model returns
  the constraint itself.
\<close>

fun get_reverse :: "constraint \<Rightarrow> constraint" where
  "get_reverse (Binary l r q) = Binary r l (\<lambda>x y. q y x)"
| "get_reverse (Unary l p) = Unary l p"

section \<open>Node consistency\<close>

text \<open>\<^verbatim>\<open>dom_copy = [set(dom) for dom in domains]\<close>: one new set per entry.\<close>

fun copy_all :: "heap \<Rightarrow> pyobj list \<Rightarrow> error + (heap \<times> addr list)" where
  "copy_all h [] = Inr (h, [])"
| "copy_all h (d # ds) =
     (case py_set h d of
        Inl e \<Rightarrow> Inl e
      | Inr s \<Rightarrow>
          (case alloc h s of
             (h1, p) \<Rightarrow>
               (case copy_all h1 ds of
                  Inl e \<Rightarrow> Inl e
                | Inr (h2, ps) \<Rightarrow> Inr (h2, p # ps))))"

text \<open>The innermost loop, over the constraints, for one \<open>date\<close> of the domain with index
  \<open>current_index\<close>; \<open>cur\<close> is the address of \<open>current_dom\<close>.\<close>

fun nc_constraints :: "heap \<Rightarrow> addr \<Rightarrow> nat \<Rightarrow> datetime \<Rightarrow> constraint list \<Rightarrow> error + heap" where
  "nc_constraints h cur current_index date [] = Inr h"
| "nc_constraints h cur current_index date (c # cs) =
     (if arity c = 1 \<and> L_VAL c = current_index
      then (if \<not> is_satisfied_by_values c date None
            then (case set_remove h cur date of
                    Inl e \<Rightarrow> Inl e
                  | Inr h1 \<Rightarrow> nc_constraints h1 cur current_index date cs)
            else nc_constraints h cur current_index date cs)
      else nc_constraints h cur current_index date cs)"

text \<open>\<^verbatim>\<open>for date in dom\<close>.\<close>

fun nc_dates :: "heap \<Rightarrow> addr \<Rightarrow> nat \<Rightarrow> datetime list \<Rightarrow> constraint list \<Rightarrow> error + heap" where
  "nc_dates h cur current_index [] cs = Inr h"
| "nc_dates h cur current_index (date # dates) cs =
     (case nc_constraints h cur current_index date cs of
        Inl e \<Rightarrow> Inl e
      | Inr h1 \<Rightarrow> nc_dates h1 cur current_index dates cs)"

text \<open>
  \<^verbatim>\<open>for current_index, dom in enumerate(domains)\<close>: the entries still to visit, paired
  with their copies. The loop walks over the entry itself (\<open>dom\<close>, here \<open>dm\<close>) and removes from its copy
  (\<open>current_dom\<close>).
\<close>

fun nc_loop :: "heap \<Rightarrow> nat \<Rightarrow> (pyobj \<times> addr) list \<Rightarrow> constraint list \<Rightarrow> error + heap" where
  "nc_loop h current_index [] cs = Inr h"
| "nc_loop h current_index ((dm, cur) # rest) cs =
     (case nc_dates h cur current_index (dates_of h dm) cs of
        Inl e \<Rightarrow> Inl e
      | Inr h1 \<Rightarrow> nc_loop h1 (Suc current_index) rest cs)"

text \<open>
  \<open>node_consistency(domains, constraints)\<close>. The Python list \<open>domains\<close> is updated in
  place, every entry being replaced by its copy (\<^verbatim>\<open>domains[current_index] = current_dom\<close>);
  the model returns the store and the list as they are on return.
\<close>

definition node_consistency ::
  "heap \<Rightarrow> pyobj list \<Rightarrow> constraint list \<Rightarrow> error + (heap \<times> addr list)" where
  "node_consistency h domains cs =
     (case copy_all h domains of
        Inl e \<Rightarrow> Inl e
      | Inr (h1, dom_copy) \<Rightarrow>
          (case nc_loop h1 0 (zip domains dom_copy) cs of
             Inl e \<Rightarrow> Inl e
           | Inr h2 \<Rightarrow> Inr (h2, dom_copy)))"

section \<open>Arcs\<close>

record arc =
  CONSTRAINT :: constraint
  TAIL :: nat
  HEAD :: nat

text \<open>\<open>Arc.__init__\<close>: \<^verbatim>\<open>isinstance(constraint.R_VAL, int)\<close> decides.\<close>

definition Arc_init :: "constraint \<Rightarrow> error + arc" where
  "Arc_init c =
     (case R_VAL c of
        VarIndex r \<Rightarrow> Inr \<lparr>CONSTRAINT = c, TAIL = L_VAL c, HEAD = r\<rparr>
      | Sentinel \<Rightarrow> Inl ValueError)"

section \<open>Arc consistency\<close>

text \<open>
  The worklist \<open>arcs\<close> is a Python set of Arcs, here a list without repetition;
  \<open>arcs.add\<close> leaves the set as it is when an equal Arc (same constraint, tail and
  head) is in it.
\<close>

definition arcs_add :: "arc list \<Rightarrow> arc \<Rightarrow> arc list" where
  "arcs_add arcs a = (if a \<in> set arcs then arcs else arcs @ [a])"

text \<open>\<^verbatim>\<open>for constraint in constraints: if constraint.arity() > 1: ...\<close>: the first
  loop of \<open>ac_preprocessing\<close>, which seeds the worklist with every binary constraint's
  Arc and the Arc of its reverse.\<close>

fun init_arcs :: "arc list \<Rightarrow> constraint list \<Rightarrow> error + arc list" where
  "init_arcs arcs [] = Inr arcs"
| "init_arcs arcs (c # cs) =
     (if 1 < arity c
      then (case Arc_init c of
              Inl e \<Rightarrow> Inl e
            | Inr a \<Rightarrow>
                (case Arc_init (get_reverse c) of
                   Inl e \<Rightarrow> Inl e
                 | Inr b \<Rightarrow> init_arcs (arcs_add (arcs_add arcs a) b) cs))
      else init_arcs arcs cs)"

text \<open>The loop that follows a revision which removed a value:
  \<^verbatim>\<open>if constraint.arity() > 1 and constraint.R_VAL == current_arc.TAIL: arcs.add(Arc(constraint))\<close>.\<close>

fun readd :: "arc list \<Rightarrow> nat \<Rightarrow> constraint list \<Rightarrow> error + arc list" where
  "readd arcs tail [] = Inr arcs"
| "readd arcs tail (c # cs) =
     (if 1 < arity c \<and> R_VAL c = VarIndex tail
      then (case Arc_init c of
              Inl e \<Rightarrow> Inl e
            | Inr a \<Rightarrow> readd (arcs_add arcs a) tail cs)
      else readd arcs tail cs)"

text \<open>
  \<^verbatim>\<open>for tail in tail_dom_copy\<close> of \<open>inconsistent_val_removal\<close>: \<open>tp\<close> and \<open>hp\<close> are the
  addresses of \<open>tail_dom\<close> and \<open>head_dom\<close>, the list is the copy taken before the loop,
  and the head domain is read from the store as it is when the value is examined.
\<close>

fun revise_loop ::
  "heap \<Rightarrow> addr \<Rightarrow> addr \<Rightarrow> constraint \<Rightarrow> datetime list \<Rightarrow> bool \<Rightarrow> error + (heap \<times> bool)" where
  "revise_loop h tp hp c [] removed = Inr (h, removed)"
| "revise_loop h tp hp c (t # ts) removed =
     (if list_ex (\<lambda>hd. is_satisfied_by_values c t (Some hd)) (objs h hp)
      then revise_loop h tp hp c ts removed
      else (case set_remove h tp t of
              Inl e \<Rightarrow> Inl e
            | Inr h1 \<Rightarrow> revise_loop h1 tp hp c ts True))"

text \<open>\<open>inconsistent_val_removal(doms, current_arc)\<close>; \<^verbatim>\<open>doms[current_arc.TAIL]\<close> and
  \<^verbatim>\<open>doms[current_arc.HEAD]\<close> raise \<open>IndexError\<close> past the end of the list.\<close>

definition inconsistent_val_removal :: "heap \<Rightarrow> addr list \<Rightarrow> arc \<Rightarrow> error + (heap \<times> bool)" where
  "inconsistent_val_removal h doms current_arc =
     (if length doms \<le> TAIL current_arc \<or> length doms \<le> HEAD current_arc
      then Inl IndexError
      else revise_loop h (doms ! TAIL current_arc) (doms ! HEAD current_arc)
             (CONSTRAINT current_arc) (objs h (doms ! TAIL current_arc)) False)"

text \<open>
  \<open>arcs.pop()\<close> removes an arbitrary Arc. Which one is left to a schedule, a list of
  numbers of which every pass of the loop consumes one: the Arc popped is the one at that
  position of the worklist (modulo its length; the first Arc once the schedule is used
  up). Every order in which a run can pop the Arcs is the order of some schedule.
\<close>

definition pop_index :: "nat list \<Rightarrow> arc list \<Rightarrow> nat" where
  "pop_index sched arcs = (case sched of [] \<Rightarrow> 0 | k # ks \<Rightarrow> k mod length arcs)"

text \<open>One pass of \<^verbatim>\<open>while arcs\<close>: the store and the worklist after it.\<close>

definition ac_step ::
  "nat list \<Rightarrow> heap \<Rightarrow> addr list \<Rightarrow> constraint list \<Rightarrow> arc list \<Rightarrow> error + (heap \<times> arc list)" where
  "ac_step sched h doms cs arcs =
     (let i = pop_index sched arcs;
          current_arc = arcs ! i;
          rest = take i arcs @ drop (Suc i) arcs
      in case inconsistent_val_removal h doms current_arc of
           Inl e \<Rightarrow> Inl e
         | Inr (h1, removed) \<Rightarrow>
             (if removed
              then (case readd rest (TAIL current_arc) cs of
                      Inl e \<Rightarrow> Inl e
                    | Inr arcs1 \<Rightarrow> Inr (h1, arcs1))
              else Inr (h1, rest)))"

text \<open>The size of the domains, which a revision that removes a value makes smaller.\<close>

definition doms_size :: "heap \<Rightarrow> addr list \<Rightarrow> nat" where
  "doms_size h doms = sum_list (map (\<lambda>p. length (objs h p)) doms)"

lemma set_remove_length:
  assumes "set_remove h tp t = Inr h1"
  shows "length (objs h1 p) \<le> length (objs h p)"
    and "length (objs h1 tp) < length (objs h tp)"
proof -
  from assms have mem: "t \<in> set (objs h tp)"
    and h1: "h1 = h\<lparr>objs := (objs h)(tp := removeAll t (objs h tp))\<rparr>"
    by (auto simp: set_remove_def split: if_splits)
  have le: "length (removeAll t (objs h tp)) \<le> length (objs h tp)"
    by (simp add: removeAll_filter_not_eq)
  from mem have lt: "length (removeAll t (objs h tp)) < length (objs h tp)"
    by (simp add: removeAll_filter_not_eq length_filter_less)
  from h1 le show "length (objs h1 p) \<le> length (objs h p)" by simp
  from h1 lt show "length (objs h1 tp) < length (objs h tp)" by simp
qed

lemma revise_loop_length:
  "revise_loop h tp hp c ts removed = Inr (h1, r) \<Longrightarrow>
     (\<forall>p. length (objs h1 p) \<le> length (objs h p)) \<and>
     (r \<and> \<not> removed \<longrightarrow> length (objs h1 tp) < length (objs h tp)) \<and>
     (\<not> r \<longrightarrow> h1 = h \<and> \<not> removed)"
proof (induction ts arbitrary: h removed)
  case Nil
  then show ?case by simp
next
  case (Cons t ts)
  show ?case
  proof (cases "list_ex (\<lambda>hd. is_satisfied_by_values c t (Some hd)) (objs h hp)")
    case True
    with Cons.prems have "revise_loop h tp hp c ts removed = Inr (h1, r)" by simp
    from Cons.IH [OF this] show ?thesis .
  next
    case False
    with Cons.prems obtain h2 where rm: "set_remove h tp t = Inr h2"
      and rest: "revise_loop h2 tp hp c ts True = Inr (h1, r)"
      by (auto split: sum.splits)
    from Cons.IH [OF rest] have ih: "\<forall>p. length (objs h1 p) \<le> length (objs h2 p)" and r: r
      by auto
    have "length (objs h1 p) \<le> length (objs h p)" for p
      using ih set_remove_length(1) [OF rm, of p] le_trans by blast
    moreover have "length (objs h1 tp) < length (objs h tp)"
      using ih set_remove_length(2) [OF rm] le_less_trans by blast
    ultimately show ?thesis using r by simp
  qed
qed

lemma sum_list_map_less:
  "\<forall>x\<in>set xs. f x \<le> (g x :: nat) \<Longrightarrow> y \<in> set xs \<Longrightarrow> f y < g y \<Longrightarrow>
     sum_list (map f xs) < sum_list (map g xs)"
proof (induction xs)
  case Nil
  then show ?case by simp
next
  case (Cons x xs)
  have le: "sum_list (map f xs) \<le> sum_list (map g xs)"
    using Cons.prems(1) by (simp add: sum_list_mono)
  show ?case
  proof (cases "f x < g x")
    case True
    with le show ?thesis by simp
  next
    case False
    with Cons.prems have "y \<in> set xs" by auto
    with Cons have "sum_list (map f xs) < sum_list (map g xs)" by simp
    moreover have "f x \<le> g x" using Cons.prems(1) by simp
    ultimately show ?thesis by simp
  qed
qed

lemma inconsistent_val_removal_size:
  assumes "inconsistent_val_removal h doms a = Inr (h1, removed)"
  shows "(removed \<longrightarrow> doms_size h1 doms < doms_size h doms) \<and> (\<not> removed \<longrightarrow> h1 = h)"
proof -
  from assms have inr: "TAIL a < length doms"
    and rl: "revise_loop h (doms ! TAIL a) (doms ! HEAD a) (CONSTRAINT a)
               (objs h (doms ! TAIL a)) False = Inr (h1, removed)"
    by (auto simp: inconsistent_val_removal_def split: if_splits)
  note facts = revise_loop_length [OF rl]
  show ?thesis
  proof (cases removed)
    case True
    have "sum_list (map (\<lambda>p. length (objs h1 p)) doms) < sum_list (map (\<lambda>p. length (objs h p)) doms)"
    proof (rule sum_list_map_less)
      show "\<forall>x\<in>set doms. length (objs h1 x) \<le> length (objs h x)" using facts by simp
      show "doms ! TAIL a \<in> set doms" using inr by simp
      show "length (objs h1 (doms ! TAIL a)) < length (objs h (doms ! TAIL a))"
        using facts True by simp
    qed
    with True show ?thesis by (simp add: doms_size_def)
  next
    case False
    with facts show ?thesis by simp
  qed
qed

lemma ac_step_decreases:
  assumes "arcs \<noteq> []" and "ac_step sched h doms cs arcs = Inr (h1, arcs1)"
  shows "doms_size h1 doms < doms_size h doms \<or>
         (doms_size h1 doms = doms_size h doms \<and> length arcs1 < length arcs)"
proof -
  let ?i = "pop_index sched arcs"
  have i: "?i < length arcs"
    using assms(1) by (cases sched) (simp_all add: pop_index_def)
  from assms(2) obtain h2 removed where
    ivr: "inconsistent_val_removal h doms (arcs ! ?i) = Inr (h2, removed)"
    by (auto simp: ac_step_def Let_def split: sum.splits)
  note sz = inconsistent_val_removal_size [OF ivr]
  show ?thesis
  proof (cases removed)
    case True
    with assms(2) ivr have "h1 = h2"
      by (auto simp: ac_step_def Let_def split: sum.splits)
    with sz True show ?thesis by simp
  next
    case False
    with assms(2) ivr have "h1 = h2" and "arcs1 = take ?i arcs @ drop (Suc ?i) arcs"
      by (auto simp: ac_step_def Let_def split: sum.splits)
    moreover have "length (take ?i arcs @ drop (Suc ?i) arcs) < length arcs"
      using i by simp
    ultimately show ?thesis using sz False by simp
  qed
qed

text \<open>\<^verbatim>\<open>while arcs\<close>: the loop ends, since a pass either removes a value from a domain or
  makes the worklist shorter.\<close>

function ac_loop ::
  "nat list \<Rightarrow> heap \<Rightarrow> addr list \<Rightarrow> constraint list \<Rightarrow> arc list \<Rightarrow> error + heap" where
  "ac_loop sched h doms cs arcs =
     (if arcs = [] then Inr h
      else (case ac_step sched h doms cs arcs of
              Inl e \<Rightarrow> Inl e
            | Inr (h1, arcs1) \<Rightarrow> ac_loop (tl sched) h1 doms cs arcs1))"
  by pat_completeness auto
termination
proof (relation "measures [\<lambda>(sched, h, doms, cs, arcs). doms_size h doms,
                           \<lambda>(sched, h, doms, cs, arcs). length arcs]")
  show "wf (measures [\<lambda>(sched, h, doms, cs, arcs). doms_size h doms,
                      \<lambda>(sched, h, doms, cs, arcs). length arcs])"
    by simp
next
  fix sched :: "nat list" and h :: heap and doms :: "addr list" and cs :: "constraint list"
    and arcs :: "arc list" and x2 :: "heap \<times> arc list" and h1 :: heap and arcs1 :: "arc list"
  assume "arcs \<noteq> []" and "ac_step sched h doms cs arcs = Inr x2" and "(h1, arcs1) = x2"
  then have "ac_step sched h doms cs arcs = Inr (h1, arcs1)" by simp
  from ac_step_decreases [OF \<open>arcs \<noteq> []\<close> this]
  show "((tl sched, h1, doms, cs, arcs1), (sched, h, doms, cs, arcs))
          \<in> measures [\<lambda>(sched, h, doms, cs, arcs). doms_size h doms,
                      \<lambda>(sched, h, doms, cs, arcs). length arcs]"
    by auto
qed

declare ac_loop.simps [simp del]

text \<open>\<open>arc_consistency(domains, constraints)\<close>, that is \<open>ac_preprocessing\<close>; the sets are
  changed in place, so the list of references stays as it is and the store is returned.\<close>

definition arc_consistency ::
  "nat list \<Rightarrow> heap \<Rightarrow> addr list \<Rightarrow> constraint list \<Rightarrow> error + heap" where
  "arc_consistency sched h doms cs =
     (case init_arcs [] cs of
        Inl e \<Rightarrow> Inl e
      | Inr arcs \<Rightarrow> ac_loop sched h doms cs arcs)"

section \<open>Backtracking search\<close>

text \<open>
  The assignment is a Python list with one slot per meeting, \<open>None\<close> where no datetime
  is assigned. \<^verbatim>\<open>for assignment in assignments: if assignment: continue\<close> skips the
  assigned slots, and \<^verbatim>\<open>assignments.index(assignment)\<close> is then the position of the
  first \<open>None\<close>.
\<close>

fun first_unassigned :: "datetime option list \<Rightarrow> nat option" where
  "first_unassigned [] = None"
| "first_unassigned (x # xs) =
     (case x of None \<Rightarrow> Some 0 | Some d \<Rightarrow> map_option Suc (first_unassigned xs))"

text \<open>\<^verbatim>\<open>for constraint in constraints\<close> of the search: \<open>satisfied\<close> after the loop,
  which stops at the first constraint that does not hold.\<close>

fun check_constraints :: "constraint list \<Rightarrow> datetime option list \<Rightarrow> error + bool" where
  "check_constraints [] a = Inr True"
| "check_constraints (c # cs) a =
     (case is_satisfied_by_assignment c a of
        Inl e \<Rightarrow> Inl e
      | Inr ok \<Rightarrow> (if \<not> ok then Inr False else check_constraints cs a))"

text \<open>\<^verbatim>\<open>if result\<close>: \<open>None\<close> and the empty list are false.\<close>

fun truthy :: "datetime option list option \<Rightarrow> bool" where
  "truthy None = False"
| "truthy (Some r) = (r \<noteq> [])"

text \<open>
  \<open>recursive_csp_backtracker\<close> works on one list \<open>assignments\<close>, which every call
  changes in place. The model passes the list along: a call returns the list as it has
  left it, together with what it returns (\<open>None\<close>, or the list itself). \<open>try_values\<close> is
  the loop \<^verbatim>\<open>for dom in doms[current_var]\<close> over the values still to try. The domains
  are not changed by the search, so they are passed as values.
\<close>

type_synonym search_result = "error + (datetime option list \<times> datetime option list option)"

function recursive_csp_backtracker ::
    "datetime option list \<Rightarrow> nat \<Rightarrow> datetime list list \<Rightarrow> constraint list \<Rightarrow> search_result"
  and try_values ::
    "datetime option list \<Rightarrow> nat \<Rightarrow> datetime list list \<Rightarrow> constraint list \<Rightarrow> nat \<Rightarrow> datetime list
       \<Rightarrow> search_result"
where
  "recursive_csp_backtracker a vars doms cs =
     (case first_unassigned a of
        None \<Rightarrow> Inr (a, Some a)
      | Some current_var \<Rightarrow>
          (if length doms \<le> current_var then Inl IndexError
           else try_values a vars doms cs current_var (doms ! current_var)))"
| "try_values a vars doms cs current_var [] = Inr (a, None)"
| "try_values a vars doms cs current_var (d # ds) =
     (if length a \<le> current_var then Inl IndexError
      else (case check_constraints cs (a[current_var := Some d]) of
              Inl e \<Rightarrow> Inl e
            | Inr satisfied \<Rightarrow>
                (if \<not> satisfied
                 then try_values (a[current_var := Some d, current_var := None, current_var := None])
                        vars doms cs current_var ds
                 else (case recursive_csp_backtracker (a[current_var := Some d]) vars doms cs of
                         Inl e \<Rightarrow> Inl e
                       | Inr (a2, result) \<Rightarrow>
                           (if truthy result then Inr (a2, result)
                            else try_values (a2[current_var := None]) vars doms cs current_var ds)))))"
  by pat_completeness auto


text \<open>A call that does not return a solution leaves the list as it found it; the
  termination of the search rests on that.\<close>

lemma first_unassigned_Some:
  "first_unassigned a = Some v \<Longrightarrow> v < length a \<and> a ! v = None \<and> (\<forall>i<v. a ! i \<noteq> None)"
proof (induction a arbitrary: v)
  case Nil
  then show ?case by simp
next
  case (Cons x xs)
  show ?case
  proof (cases x)
    case None
    with Cons.prems show ?thesis by simp
  next
    case (Some d)
    with Cons.prems obtain w where w: "first_unassigned xs = Some w" and v: "v = Suc w"
      by auto
    from Cons.IH [OF w] Some v show ?thesis
      by (auto simp: nth_Cons split: nat.splits)
  qed
qed

lemma first_unassigned_None:
  "first_unassigned a = None \<Longrightarrow> \<forall>x\<in>set a. x \<noteq> None"
  by (induction a) (auto split: option.splits)

lemma backtracker_restores_partial:
  "recursive_csp_backtracker_try_values_dom (Inl (a, vars, doms, cs)) \<Longrightarrow>
     recursive_csp_backtracker a vars doms cs = Inr (a2, r) \<Longrightarrow> \<not> truthy r \<Longrightarrow> a2 = a"
  "recursive_csp_backtracker_try_values_dom (Inr (b, vars', doms', cs', v, ds)) \<Longrightarrow>
     try_values b vars' doms' cs' v ds = Inr (b2, r') \<Longrightarrow> \<not> truthy r' \<Longrightarrow>
     b2 = b \<or> b2 = b[v := None]"
proof (induct a vars doms cs and b vars' doms' cs' v ds arbitrary: a2 r and b2 r'
       rule: recursive_csp_backtracker_try_values.pinduct)
  case (1 a vars doms cs)
  show ?case
  proof (cases "first_unassigned a")
    case None
    with "1.prems" "1.hyps"(1) show ?thesis
      by (simp add: recursive_csp_backtracker.psimps)
  next
    case (Some w)
    note fu = first_unassigned_Some [OF Some]
    from "1.prems"(1) "1.hyps"(1) Some have inr: "\<not> length doms \<le> w"
      and tv: "try_values a vars doms cs w (doms ! w) = Inr (a2, r)"
      by (auto simp: recursive_csp_backtracker.psimps split: if_splits)
    from "1.hyps"(2) [OF Some inr tv "1.prems"(2)] have "a2 = a \<or> a2 = a[w := None]" .
    moreover from fu have "a[w := None] = a" by (metis list_update_id)
    ultimately show ?thesis by simp
  qed
next
  case (2 a vars doms cs current_var)
  then show ?case by (simp add: try_values.psimps)
next
  case (3 a vars doms cs current_var d ds)
  note dm = "3.hyps"(1)
  from "3.prems"(1) dm have len: "\<not> length a \<le> current_var"
    by (auto simp: try_values.psimps split: if_splits)
  from "3.prems"(1) dm len obtain ok where ck: "check_constraints cs (a[current_var := Some d]) = Inr ok"
    by (auto simp: try_values.psimps split: sum.splits)
  show ?case
  proof (cases ok)
    case False
    with "3.prems"(1) dm len ck have
      "try_values (a[current_var := Some d, current_var := None, current_var := None])
         vars doms cs current_var ds = Inr (b2, r')"
      by (simp add: try_values.psimps)
    from "3.hyps"(2) [OF len ck _ this "3.prems"(2)] False show ?thesis by auto
  next
    case True
    with "3.prems"(1) dm len ck obtain a3 y where
      rc: "recursive_csp_backtracker (a[current_var := Some d]) vars doms cs = Inr (a3, y)"
      by (auto simp: try_values.psimps split: sum.splits)
    show ?thesis
    proof (cases "truthy y")
      case t: True
      with "3.prems" dm len ck True rc show ?thesis
        by (auto simp: try_values.psimps)
    next
      case f: False
      from "3.hyps"(3) [OF len ck _ rc f] True have a3: "a3 = a[current_var := Some d]" by simp
      from "3.prems"(1) dm len ck True rc f have
        "try_values (a3[current_var := None]) vars doms cs current_var ds = Inr (b2, r')"
        by (simp add: try_values.psimps)
      from "3.hyps"(4) [OF len ck _ rc _ f this "3.prems"(2)] True a3 show ?thesis by auto
    qed
  qed
qed

definition unassigned :: "datetime option list \<Rightarrow> nat" where
  "unassigned a = length (filter (\<lambda>x. x = None) a)"

lemma unassigned_update:
  "v < length a \<Longrightarrow> unassigned (a[v := Some d]) < unassigned (a[v := None])"
proof (induction a arbitrary: v)
  case Nil
  then show ?case by simp
next
  case (Cons x xs)
  then show ?case by (cases v) (auto simp: unassigned_def)
qed

lemma backtracker_total: "All recursive_csp_backtracker_try_values_dom"
proof (relation "measures
   [\<lambda>x. case x of Inl (a, vars, doms, cs) \<Rightarrow> unassigned a
             | Inr (a, vars, doms, cs, v, ds) \<Rightarrow> unassigned (a[v := None]),
    \<lambda>x. case x of Inl (a, vars, doms, cs) \<Rightarrow> Suc (sum_list (map length doms))
             | Inr (a, vars, doms, cs, v, ds) \<Rightarrow> length ds]", goal_cases)
  case 1
  show ?case by simp
next
  case (2 a vars doms cs x2)
  note fu = first_unassigned_Some [OF 2(1)]
  from fu have "a[x2 := None] = a" by (metis list_update_id)
  moreover have "length (doms ! x2) \<le> sum_list (map length doms)"
    using 2(2) by (simp add: member_le_sum_list)
  ultimately show ?case by simp
next
  case (3 a vars doms cs current_var d ds b)
  then show ?case by simp
next
  case (4 a vars doms cs current_var d ds b)
  then show ?case by (simp add: unassigned_update)
next
  case (5 a vars doms cs current_var d ds b ba x y)
  from 5 have "recursive_csp_backtracker (a[current_var := Some d]) vars doms cs = Inr (x, y)"
    by simp
  from backtracker_restores_partial(1) [OF 5(7) this 5(6)]
  show ?case by simp
qed

termination recursive_csp_backtracker
  by (rule backtracker_total)

declare recursive_csp_backtracker.simps [simp del]

lemma backtracker_restores:
  "recursive_csp_backtracker a vars doms cs = Inr (a2, r) \<Longrightarrow> \<not> truthy r \<Longrightarrow> a2 = a"
  using backtracker_restores_partial(1) backtracker_total by blast

text \<open>
  How often the search executes \<^verbatim>\<open>assignments[current_var] = dom\<close>, the tentative
  assignment of a value to a variable: the same recursion as the search, with one counted
  for every pass of the loop over the values. The search returns no such number; it is
  what an observer of the run counts.
\<close>

function tentative_rec ::
    "datetime option list \<Rightarrow> nat \<Rightarrow> datetime list list \<Rightarrow> constraint list \<Rightarrow> nat"
  and tentative_try ::
    "datetime option list \<Rightarrow> nat \<Rightarrow> datetime list list \<Rightarrow> constraint list \<Rightarrow> nat \<Rightarrow> datetime list
       \<Rightarrow> nat"
where
  "tentative_rec a vars doms cs =
     (case first_unassigned a of
        None \<Rightarrow> 0
      | Some current_var \<Rightarrow>
          (if length doms \<le> current_var then 0
           else tentative_try a vars doms cs current_var (doms ! current_var)))"
| "tentative_try a vars doms cs current_var [] = 0"
| "tentative_try a vars doms cs current_var (d # ds) =
     (if length a \<le> current_var then 0
      else Suc (case check_constraints cs (a[current_var := Some d]) of
              Inl e \<Rightarrow> 0
            | Inr satisfied \<Rightarrow>
                (if \<not> satisfied
                 then tentative_try (a[current_var := Some d, current_var := None, current_var := None])
                        vars doms cs current_var ds
                 else tentative_rec (a[current_var := Some d]) vars doms cs +
                      (case recursive_csp_backtracker (a[current_var := Some d]) vars doms cs of
                         Inl e \<Rightarrow> 0
                       | Inr (a2, result) \<Rightarrow>
                           (if truthy result then 0
                            else tentative_try (a2[current_var := None]) vars doms cs current_var ds)))))"
  by pat_completeness auto
termination tentative_rec
proof (relation "measures
   [\<lambda>x. case x of Inl (a, vars, doms, cs) \<Rightarrow> unassigned a
             | Inr (a, vars, doms, cs, v, ds) \<Rightarrow> unassigned (a[v := None]),
    \<lambda>x. case x of Inl (a, vars, doms, cs) \<Rightarrow> Suc (sum_list (map length doms))
             | Inr (a, vars, doms, cs, v, ds) \<Rightarrow> length ds]", goal_cases)
  case 1
  show ?case by simp
next
  case (2 a vars doms cs x2)
  note fu = first_unassigned_Some [OF 2(1)]
  from fu have "a[x2 := None] = a" by (metis list_update_id)
  moreover have "length (doms ! x2) \<le> sum_list (map length doms)"
    using 2(2) by (simp add: member_le_sum_list)
  ultimately show ?case by simp
next
  case (3 a vars doms cs current_var d ds b)
  then show ?case by simp
next
  case (4 a vars doms cs current_var d ds b)
  then show ?case by (simp add: unassigned_update)
next
  case (5 a vars doms cs current_var d ds b ba x y)
  from 5 have "recursive_csp_backtracker (a[current_var := Some d]) vars doms cs = Inr (x, y)"
    by simp
  from backtracker_restores [OF this 5(6)]
  show ?case by simp
qed

declare tentative_rec.simps [simp del]

section \<open>The solver\<close>

text \<open>
  \<open>csp_backtracker\<close> throws its parameter \<open>doms\<close> away and builds the list of domains
  anew, every slot holding \<open>date_range\<close> itself:
  \<^verbatim>\<open>doms = [date_range for _ in range(n_meetings)]\<close>. \<open>n_meetings\<close> is a Python \<open>int\<close>;
  \<open>range\<close> of a number below 1 is empty, as is \<^verbatim>\<open>[None] * vars\<close>. The schedule
  stands for the order in which \<open>arcs.pop()\<close> hands out the Arcs. The result holds the
  store on return and the value returned.
\<close>

definition csp_backtracker ::
  "nat list \<Rightarrow> heap \<Rightarrow> int \<Rightarrow> pyobj \<Rightarrow> int \<Rightarrow> constraint list
     \<Rightarrow> error + (heap \<times> datetime option list option)" where
  "csp_backtracker sched h n_meetings date_range vars date_constraints =
     (case node_consistency h (replicate (nat n_meetings) date_range) date_constraints of
        Inl e \<Rightarrow> Inl e
      | Inr (h1, doms) \<Rightarrow>
          (case arc_consistency sched h1 doms date_constraints of
             Inl e \<Rightarrow> Inl e
           | Inr h2 \<Rightarrow>
               (case recursive_csp_backtracker (replicate (nat vars) None) (nat vars)
                       (map (objs h2) doms) date_constraints of
                  Inl e \<Rightarrow> Inl e
                | Inr (assignments, result) \<Rightarrow> Inr (h2, result))))"

definition solve ::
  "nat list \<Rightarrow> heap \<Rightarrow> int \<Rightarrow> pyobj \<Rightarrow> constraint list
     \<Rightarrow> error + (heap \<times> datetime option list option)" where
  "solve sched h n_meetings date_range constraints =
     csp_backtracker sched h n_meetings date_range n_meetings constraints"

text \<open>A constraint whose variables are meetings of the problem, \<open>0..n-1\<close>.\<close>

fun in_range :: "constraint \<Rightarrow> nat \<Rightarrow> bool" where
  "in_range (Unary l p) n = (l < n)"
| "in_range (Binary l r q) n = (l < n \<and> r < n)"

text \<open>The values of the domains as the two filters leave them, that is when
  \<open>csp_backtracker\<close> starts the search, and the number of tentative assignments the search
  then makes.\<close>

definition filtered ::
  "nat list \<Rightarrow> heap \<Rightarrow> int \<Rightarrow> pyobj \<Rightarrow> constraint list \<Rightarrow> error + datetime list list" where
  "filtered sched h n_meetings date_range date_constraints =
     (case node_consistency h (replicate (nat n_meetings) date_range) date_constraints of
        Inl e \<Rightarrow> Inl e
      | Inr (h1, doms) \<Rightarrow>
          (case arc_consistency sched h1 doms date_constraints of
             Inl e \<Rightarrow> Inl e
           | Inr h2 \<Rightarrow> Inr (map (objs h2) doms)))"

definition search_assignments ::
  "nat list \<Rightarrow> heap \<Rightarrow> int \<Rightarrow> pyobj \<Rightarrow> constraint list \<Rightarrow> error + nat" where
  "search_assignments sched h n_meetings date_range date_constraints =
     (case filtered sched h n_meetings date_range date_constraints of
        Inl e \<Rightarrow> Inl e
      | Inr ds \<Rightarrow>
          Inr (tentative_rec (replicate (nat n_meetings) None) (nat n_meetings) ds
                 date_constraints))"

section \<open>Stores for concrete inputs\<close>

text \<open>\<open>heap_of ss\<close> is the store that holds the sets \<open>ss\<close> at the addresses \<open>0, 1, ...\<close>
  and nothing else.\<close>

definition empty_heap :: heap where
  "empty_heap = \<lparr>objs = (\<lambda>p. []), nxt = 0\<rparr>"

definition heap_of :: "datetime list list \<Rightarrow> heap" where
  "heap_of ss = fold (\<lambda>s h. fst (alloc h s)) ss empty_heap"

lemmas run_simps =
  solve_def csp_backtracker_def node_consistency_def arc_consistency_def ac_loop.simps
  ac_step_def pop_index_def inconsistent_val_removal_def Arc_init_def arcs_add_def
  recursive_csp_backtracker.simps heap_of_def empty_heap_def alloc_def set_remove_def
  filtered_def search_assignments_def tentative_rec.simps

text \<open>
  Two binary constraints between meeting 0 and meeting 1, for the inputs on which arc
  consistency is run below: \<open>loose\<close>, "meeting 1 is less than 10 days after meeting 0,
  or meeting 0 is on day 3", and \<open>exact\<close>, "meeting 1 is exactly 10 days after
  meeting 0".
\<close>

definition loose :: constraint where
  "loose = Binary 0 1 (\<lambda>x y. y < x + 10 \<or> x = 3)"

definition exact :: constraint where
  "exact = Binary 0 1 (\<lambda>x y. y = x + 10)"

lemma loose_neq_exact:
  "(\<lambda>x y. y < x + 10 \<or> x = 3) \<noteq> (\<lambda>(x::int) y. y = x + 10)"
  "(\<lambda>y x. y < x + 10 \<or> x = 3) \<noteq> (\<lambda>y (x::int). y = x + 10)"
proof -
  have "\<And>f g. f = g \<Longrightarrow> f (3::int) (11::int) = (g 3 11 :: bool)" by simp
  from this [of "\<lambda>x y. y < x + 10 \<or> x = 3" "\<lambda>x y. y = x + 10"]
  show "(\<lambda>x y. y < x + 10 \<or> x = 3) \<noteq> (\<lambda>(x::int) y. y = x + 10)" by auto
  have "\<And>f g. f = g \<Longrightarrow> f (11::int) (3::int) = (g 11 3 :: bool)" by simp
  from this [of "\<lambda>y x. y < x + 10 \<or> x = 3" "\<lambda>y x. y = x + 10"]
  show "(\<lambda>y x. y < x + 10 \<or> x = 3) \<noteq> (\<lambda>y (x::int). y = x + 10)" by auto
qed

lemmas chain_simps = loose_def exact_def loose_neq_exact loose_neq_exact [symmetric]

section \<open>No meetings\<close>

lemma node_consistency_Nil: "node_consistency h [] cs = Inr (h, [])"
  by (simp add: node_consistency_def)

lemma arcs_add_not_Nil: "arcs_add arcs a \<noteq> []"
  by (auto simp: arcs_add_def)

lemma init_arcs_result:
  "\<exists>arcs'. init_arcs arcs cs = Inr arcs' \<and>
     (arcs \<noteq> [] \<longrightarrow> arcs' \<noteq> []) \<and>
     ((\<exists>c\<in>set cs. 1 < arity c) \<longrightarrow> arcs' \<noteq> []) \<and>
     ((\<forall>c\<in>set cs. arity c \<le> 1) \<longrightarrow> arcs' = arcs)"
proof (induction cs arbitrary: arcs)
  case Nil
  then show ?case by simp
next
  case (Cons c cs)
  show ?case
  proof (cases c)
    case (Unary l p)
    with Cons.IH [of arcs] show ?thesis by simp
  next
    case (Binary l r q)
    let ?arcs1 = "arcs_add (arcs_add arcs \<lparr>CONSTRAINT = c, TAIL = l, HEAD = r\<rparr>)
                    \<lparr>CONSTRAINT = get_reverse c, TAIL = r, HEAD = l\<rparr>"
    from Binary have step: "init_arcs arcs (c # cs) = init_arcs ?arcs1 cs"
      by (simp add: Arc_init_def)
    have "?arcs1 \<noteq> []" by (rule arcs_add_not_Nil)
    with Cons.IH [of ?arcs1] step Binary show ?thesis by auto
  qed
qed

lemma ac_loop_no_domains:
  "arcs \<noteq> [] \<Longrightarrow> ac_loop sched h [] cs arcs = Inl IndexError"
  by (simp add: ac_loop.simps ac_step_def inconsistent_val_removal_def Let_def)

section \<open>Soundness of the search\<close>

lemma check_constraints_True:
  "check_constraints cs a = Inr True \<Longrightarrow> \<forall>c\<in>set cs. is_satisfied_by_assignment c a = Inr True"
  by (induction cs) (auto split: sum.splits if_splits)

lemma search_sound:
  "recursive_csp_backtracker a vars doms cs = Inr (a2, Some r) \<Longrightarrow>
     r = a2 \<and> length r = length a \<and> first_unassigned r = None \<and>
     (first_unassigned a \<noteq> None \<longrightarrow> check_constraints cs r = Inr True)"
  "try_values b vars' doms' cs' v ds = Inr (b2, Some r') \<Longrightarrow>
     r' = b2 \<and> length r' = length b \<and> first_unassigned r' = None \<and>
     check_constraints cs' r' = Inr True"
proof (induct a vars doms cs and b vars' doms' cs' v ds arbitrary: a2 r and b2 r'
       rule: recursive_csp_backtracker_try_values.induct)
  case (1 a vars doms cs)
  show ?case
  proof (cases "first_unassigned a")
    case None
    with "1.prems" show ?thesis by (auto simp: recursive_csp_backtracker.simps)
  next
    case (Some w)
    from "1.prems" Some have inr: "\<not> length doms \<le> w"
      and tv: "try_values a vars doms cs w (doms ! w) = Inr (a2, Some r)"
      by (auto simp: recursive_csp_backtracker.simps split: if_splits)
    from "1.hyps" [OF Some inr tv] show ?thesis by blast
  qed
next
  case (2 a vars doms cs current_var)
  then show ?case by simp
next
  case (3 a vars doms cs current_var d ds)
  from "3.prems" have len: "\<not> length a \<le> current_var"
    by (auto split: if_splits)
  from "3.prems" len obtain ok where ck: "check_constraints cs (a[current_var := Some d]) = Inr ok"
    by (auto split: sum.splits)
  show ?case
  proof (cases ok)
    case False
    with "3.prems" len ck have
      "try_values (a[current_var := Some d, current_var := None, current_var := None])
         vars doms cs current_var ds = Inr (b2, Some r')"
      by simp
    from "3.hyps"(1) [OF len ck _ this] False show ?thesis by auto
  next
    case True
    with "3.prems" len ck obtain a3 y where
      rc: "recursive_csp_backtracker (a[current_var := Some d]) vars doms cs = Inr (a3, y)"
      by (auto split: sum.splits)
    show ?thesis
    proof (cases "truthy y")
      case t: True
      with "3.prems" len ck True rc have y: "y = Some r'" and a3: "a3 = b2" by auto
      from "3.hyps"(2) [OF len ck _ rc [unfolded y]] True
      have ih: "r' = a3" "length r' = length a" "first_unassigned r' = None"
        "first_unassigned (a[current_var := Some d]) \<noteq> None \<longrightarrow> check_constraints cs r' = Inr True"
        by auto
      have "check_constraints cs r' = Inr True"
      proof (cases "first_unassigned (a[current_var := Some d])")
        case None
        with rc y have "r' = a[current_var := Some d]"
          by (auto simp: recursive_csp_backtracker.simps)
        with ck True show ?thesis by simp
      next
        case (Some w)
        with ih(4) show ?thesis by simp
      qed
      with ih a3 show ?thesis by simp
    next
      case f: False
      from backtracker_restores [OF rc f] have a3: "a3 = a[current_var := Some d]" .
      from "3.prems" len ck True rc f have
        "try_values (a3[current_var := None]) vars doms cs current_var ds = Inr (b2, Some r')"
        by simp
      from "3.hyps"(3) [OF len ck _ rc _ f this] True a3 show ?thesis by auto
    qed
  qed
qed

lemma first_unassigned_replicate: "0 < k \<Longrightarrow> first_unassigned (replicate k None) = Some 0"
  by (cases k) simp_all

section \<open>Search with an empty domain\<close>

lemma is_satisfied_in_range:
  "in_range c (length a) \<Longrightarrow> \<exists>ok. is_satisfied_by_assignment c a = Inr ok"
  by (cases c) (fastforce split: option.splits)+

lemma check_constraints_in_range:
  "\<forall>c\<in>set cs. in_range c (length a) \<Longrightarrow> \<exists>ok. check_constraints cs a = Inr ok"
proof (induction cs)
  case Nil
  show ?case by auto
next
  case (Cons c cs)
  from Cons.prems obtain ok where "is_satisfied_by_assignment c a = Inr ok"
    using is_satisfied_in_range [of c a] by auto
  moreover from Cons obtain ok' where "check_constraints cs a = Inr ok'" by auto
  ultimately show ?case by auto
qed

lemma first_unassigned_exists:
  "k < length a \<Longrightarrow> a ! k = None \<Longrightarrow> \<exists>v. first_unassigned a = Some v"
proof (induction a arbitrary: k)
  case Nil
  then show ?case by simp
next
  case (Cons x xs)
  show ?case
  proof (cases x)
    case None
    then show ?thesis by simp
  next
    case (Some d)
    with Cons.prems obtain j where "k = Suc j" by (cases k) auto
    with Cons.prems Cons.IH [of j] Some show ?thesis by auto
  qed
qed

lemma search_empty_domain:
  "\<forall>c\<in>set cs. in_range c (length a) \<Longrightarrow> length doms = length a \<Longrightarrow>
     \<exists>k<length a. a ! k = None \<and> doms ! k = [] \<Longrightarrow>
     recursive_csp_backtracker a vars doms cs = Inr (a, None)"
  "\<forall>c\<in>set cs'. in_range c (length b) \<Longrightarrow> length doms' = length b \<Longrightarrow> v < length b \<Longrightarrow>
     \<exists>k<length b. k \<noteq> v \<and> b ! k = None \<and> doms' ! k = [] \<Longrightarrow>
     try_values b vars' doms' cs' v ds = Inr (b, None) \<or>
     try_values b vars' doms' cs' v ds = Inr (b[v := None], None)"
proof (induct a vars doms cs and b vars' doms' cs' v ds
       rule: recursive_csp_backtracker_try_values.induct)
  case (1 a vars doms cs)
  from "1.prems"(3) obtain k where k: "k < length a" "a ! k = None" "doms ! k = []" by blast
  then obtain w where w: "first_unassigned a = Some w"
    using first_unassigned_exists by blast
  note fu = first_unassigned_Some [OF w]
  from fu "1.prems"(2) have inr: "\<not> length doms \<le> w" by simp
  have upd: "a[w := None] = a" using fu by (metis list_update_id)
  show ?case
  proof (cases "k = w")
    case True
    with k w inr show ?thesis by (simp add: recursive_csp_backtracker.simps)
  next
    case False
    with k have "\<exists>k<length a. k \<noteq> w \<and> a ! k = None \<and> doms ! k = []" by blast
    from "1.hyps" [OF w inr "1.prems"(1,2) _ this] fu upd
    have "try_values a vars doms cs w (doms ! w) = Inr (a, None)" by auto
    with w inr show ?thesis by (simp add: recursive_csp_backtracker.simps)
  qed
next
  case (2 a vars doms cs current_var)
  then show ?case by simp
next
  case (3 a vars doms cs current_var d ds)
  let ?a1 = "a[current_var := Some d]"
  let ?a0 = "a[current_var := None]"
  from "3.prems"(3) have len: "\<not> length a \<le> current_var" by simp
  from "3.prems"(1) obtain ok where ck: "check_constraints cs ?a1 = Inr ok"
    using check_constraints_in_range [of cs ?a1] by auto
  from "3.prems"(4) obtain k where k: "k < length a" "k \<noteq> current_var" "a ! k = None" "doms ! k = []"
    by blast
  have ex0: "\<exists>k<length ?a0. k \<noteq> current_var \<and> ?a0 ! k = None \<and> doms ! k = []"
    using k by auto
  have rng0: "\<forall>c\<in>set cs. in_range c (length ?a0)" using "3.prems"(1) by simp
  have len0: "length doms = length ?a0" "current_var < length ?a0" using "3.prems"(2,3) by simp_all
  show ?case
  proof (cases ok)
    case False
    have eq: "a[current_var := Some d, current_var := None, current_var := None] = ?a0" by simp
    from "3.hyps"(1) [OF len ck False, unfolded eq, OF rng0 len0 ex0]
    have "try_values ?a0 vars doms cs current_var ds = Inr (?a0, None) \<or>
          try_values ?a0 vars doms cs current_var ds = Inr (?a0[current_var := None], None)"
      by simp
    then have "try_values ?a0 vars doms cs current_var ds = Inr (?a0, None)" by simp
    with len ck False show ?thesis by simp
  next
    case True
    have "\<exists>k<length ?a1. ?a1 ! k = None \<and> doms ! k = []" using k by auto
    moreover have "\<forall>c\<in>set cs. in_range c (length ?a1)" using "3.prems"(1) by simp
    moreover have "length doms = length ?a1" using "3.prems"(2) by simp
    ultimately have rc: "recursive_csp_backtracker ?a1 vars doms cs = Inr (?a1, None)"
      using "3.hyps"(2) [OF len ck] True by blast
    have eq: "?a1[current_var := None] = ?a0" by simp
    have f: "\<not> truthy None" by simp
    have nn: "\<not> \<not> ok" using True by simp
    from "3.hyps"(3) [OF len ck nn rc refl f, unfolded eq, OF rng0 len0 ex0]
    have "try_values ?a0 vars doms cs current_var ds = Inr (?a0, None) \<or>
          try_values ?a0 vars doms cs current_var ds = Inr (?a0[current_var := None], None)"
      by simp
    then have "try_values ?a0 vars doms cs current_var ds = Inr (?a0, None)" by simp
    with len ck True rc show ?thesis by simp
  qed
qed

section \<open>What the filters change in the store\<close>

lemma set_remove_frame:
  "set_remove h p d = Inr h' \<Longrightarrow> nxt h' = nxt h \<and> (\<forall>q. q \<noteq> p \<longrightarrow> objs h' q = objs h q)"
  by (auto simp: set_remove_def split: if_splits)

lemma upt_from: "[i ..< i + Suc k] = i # [Suc i ..< Suc i + k]"
  by (subst upt_rec) simp

lemma copy_all_result:
  "copy_all h ds = Inr (h1, ps) \<Longrightarrow>
     ps = [nxt h ..< nxt h + length ds] \<and> nxt h1 = nxt h + length ds \<and>
     (\<forall>q<nxt h. objs h1 q = objs h q)"
proof (induction ds arbitrary: h h1 ps)
  case Nil
  then show ?case by simp
next
  case (Cons d ds)
  from Cons.prems obtain s h2 ps2 where s: "py_set h d = Inr s"
    and rest: "copy_all (fst (alloc h s)) ds = Inr (h2, ps2)"
    and res: "h1 = h2" "ps = nxt h # ps2"
    by (auto simp: alloc_def split: sum.splits)
  from Cons.IH [OF rest] have ih: "ps2 = [Suc (nxt h) ..< Suc (nxt h) + length ds]"
    "nxt h2 = Suc (nxt h) + length ds" "\<forall>q<Suc (nxt h). objs h2 q = objs (fst (alloc h s)) q"
    by (simp_all add: alloc_def)
  from ih(1) res(2) have "ps = [nxt h ..< nxt h + length (d # ds)]"
    using upt_from [of "nxt h" "length ds"] by simp
  moreover from ih(2) res(1) have "nxt h1 = nxt h + length (d # ds)" by simp
  moreover from ih(3) res(1) have "\<forall>q<nxt h. objs h1 q = objs h q"
    by (simp add: alloc_def)
  ultimately show ?case by blast
qed

lemma nc_constraints_frame:
  "nc_constraints h cur i date cs = Inr h' \<Longrightarrow>
     nxt h' = nxt h \<and> (\<forall>q. q \<noteq> cur \<longrightarrow> objs h' q = objs h q)"
proof (induction cs arbitrary: h)
  case Nil
  then show ?case by simp
next
  case (Cons c cs)
  show ?case
  proof (cases "arity c = 1 \<and> L_VAL c = i \<and> \<not> is_satisfied_by_values c date None")
    case True
    with Cons.prems obtain h1 where rm: "set_remove h cur date = Inr h1"
      and rest: "nc_constraints h1 cur i date cs = Inr h'"
      by (auto split: sum.splits)
    from Cons.IH [OF rest] set_remove_frame [OF rm] show ?thesis by simp
  next
    case False
    with Cons.prems have "nc_constraints h cur i date cs = Inr h'"
      by (auto split: if_splits)
    from Cons.IH [OF this] show ?thesis .
  qed
qed

lemma nc_dates_frame:
  "nc_dates h cur i dates cs = Inr h' \<Longrightarrow>
     nxt h' = nxt h \<and> (\<forall>q. q \<noteq> cur \<longrightarrow> objs h' q = objs h q)"
proof (induction dates arbitrary: h)
  case Nil
  then show ?case by simp
next
  case (Cons date dates)
  from Cons.prems obtain h1 where one: "nc_constraints h cur i date cs = Inr h1"
    and rest: "nc_dates h1 cur i dates cs = Inr h'"
    by (auto split: sum.splits)
  from Cons.IH [OF rest] nc_constraints_frame [OF one] show ?case by simp
qed

lemma nc_loop_frame:
  "nc_loop h i zs cs = Inr h' \<Longrightarrow>
     nxt h' = nxt h \<and> (\<forall>q. q \<notin> snd ` set zs \<longrightarrow> objs h' q = objs h q)"
proof (induction zs arbitrary: h i)
  case Nil
  then show ?case by simp
next
  case (Cons z zs)
  obtain dm cur where z: "z = (dm, cur)" by (cases z)
  with Cons.prems obtain h1 where one: "nc_dates h cur i (dates_of h dm) cs = Inr h1"
    and rest: "nc_loop h1 (Suc i) zs cs = Inr h'"
    by (auto split: sum.splits)
  from Cons.IH [OF rest] nc_dates_frame [OF one] z show ?case by simp
qed

lemma node_consistency_frame:
  assumes "node_consistency h ds cs = Inr (h1, doms)"
  shows "doms = [nxt h ..< nxt h + length ds]" and "\<forall>q<nxt h. objs h1 q = objs h q"
proof -
  from assms obtain h0 where cp: "copy_all h ds = Inr (h0, doms)"
    and lp: "nc_loop h0 0 (zip ds doms) cs = Inr h1"
    by (auto simp: node_consistency_def split: sum.splits)
  note c = copy_all_result [OF cp]
  from c show "doms = [nxt h ..< nxt h + length ds]" by simp
  have "snd ` set (zip ds doms) \<subseteq> set doms" by (auto dest: set_zip_rightD)
  with c have "\<forall>q<nxt h. q \<notin> snd ` set (zip ds doms)" by auto
  with nc_loop_frame [OF lp] c show "\<forall>q<nxt h. objs h1 q = objs h q" by simp
qed

lemma revise_loop_frame:
  "revise_loop h tp hp c ts removed = Inr (h', r) \<Longrightarrow> q \<noteq> tp \<Longrightarrow> objs h' q = objs h q"
proof (induction ts arbitrary: h removed)
  case Nil
  then show ?case by simp
next
  case (Cons t ts)
  show ?case
  proof (cases "list_ex (\<lambda>hd. is_satisfied_by_values c t (Some hd)) (objs h hp)")
    case True
    with Cons show ?thesis by simp
  next
    case False
    with Cons.prems obtain h1 where rm: "set_remove h tp t = Inr h1"
      and rest: "revise_loop h1 tp hp c ts True = Inr (h', r)"
      by (auto split: sum.splits)
    from Cons.IH [OF rest Cons.prems(2)] set_remove_frame [OF rm] Cons.prems(2)
    show ?thesis by simp
  qed
qed

lemma ac_step_frame:
  assumes "ac_step sched h doms cs arcs = Inr (h1, arcs1)" and "q \<notin> set doms"
  shows "objs h1 q = objs h q"
proof -
  let ?a = "arcs ! pop_index sched arcs"
  from assms(1) obtain removed where
    ivr: "inconsistent_val_removal h doms ?a = Inr (h1, removed)"
    by (auto simp: ac_step_def Let_def split: sum.splits if_splits)
  then have inr: "TAIL ?a < length doms"
    and rl: "revise_loop h (doms ! TAIL ?a) (doms ! HEAD ?a) (CONSTRAINT ?a)
               (objs h (doms ! TAIL ?a)) False = Inr (h1, removed)"
    by (auto simp: inconsistent_val_removal_def split: if_splits)
  from inr assms(2) have "q \<noteq> doms ! TAIL ?a" by auto
  from revise_loop_frame [OF rl this] show ?thesis .
qed

lemma ac_loop_frame:
  "ac_loop sched h doms cs arcs = Inr h' \<Longrightarrow> q \<notin> set doms \<Longrightarrow> objs h' q = objs h q"
proof (induction sched h doms cs arcs rule: ac_loop.induct)
  case (1 sched h doms cs arcs)
  show ?case
  proof (cases "arcs = []")
    case True
    with "1.prems" show ?thesis by (simp add: ac_loop.simps)
  next
    case False
    with "1.prems"(1) obtain h1 arcs1 where st: "ac_step sched h doms cs arcs = Inr (h1, arcs1)"
      and rest: "ac_loop (tl sched) h1 doms cs arcs1 = Inr h'"
      by (subst (asm) ac_loop.simps) (auto split: sum.splits)
    from "1.IH" [OF False st refl rest "1.prems"(2)] ac_step_frame [OF st "1.prems"(2)]
    show ?thesis by simp
  qed
qed

lemma arc_consistency_frame:
  "arc_consistency sched h doms cs = Inr h' \<Longrightarrow> q \<notin> set doms \<Longrightarrow> objs h' q = objs h q"
  by (auto simp: arc_consistency_def split: sum.splits dest: ac_loop_frame)

section \<open>What node consistency computes\<close>

text \<open>
  A unary constraint on the meeting \<open>i\<close> rejects the value \<open>d\<close>; \<open>rejections\<close> counts the
  constraints of the collection that do. \<open>node_consistency\<close> executes one \<open>remove\<close> for
  each of them.
\<close>

definition rejects :: "constraint \<Rightarrow> nat \<Rightarrow> datetime \<Rightarrow> bool" where
  "rejects c i d = (arity c = 1 \<and> L_VAL c = i \<and> \<not> is_satisfied_by_values c d None)"

definition rejections :: "constraint list \<Rightarrow> nat \<Rightarrow> datetime \<Rightarrow> nat" where
  "rejections cs i d = length (filter (\<lambda>c. rejects c i d) cs)"

lemma rejections_simps:
  "rejections [] i d = 0"
  "rejections (c # cs) i d = (if rejects c i d then Suc (rejections cs i d) else rejections cs i d)"
  by (simp_all add: rejections_def)

lemma nc_constraints_absent:
  "d \<notin> set (objs h cur) \<Longrightarrow>
     nc_constraints h cur i d cs = (if rejections cs i d = 0 then Inr h else Inl KeyError)"
proof (induction cs)
  case Nil
  then show ?case by (simp add: rejections_simps)
next
  case (Cons c cs)
  then show ?case
    by (auto simp: rejections_simps rejects_def set_remove_def)
qed

text \<open>Two stores that differ at the address \<open>p\<close> at most.\<close>

definition same_but :: "heap \<Rightarrow> heap \<Rightarrow> addr \<Rightarrow> bool" where
  "same_but h h' p = (nxt h' = nxt h \<and> (\<forall>q. q \<noteq> p \<longrightarrow> objs h' q = objs h q))"

lemma nc_constraints_result:
  assumes "d \<in> set (objs h cur)"
  shows "(rejections cs i d = 0 \<longrightarrow> nc_constraints h cur i d cs = Inr h) \<and>
         (rejections cs i d = 1 \<longrightarrow>
            (\<exists>h'. nc_constraints h cur i d cs = Inr h' \<and>
                  objs h' cur = removeAll d (objs h cur) \<and> same_but h h' cur)) \<and>
         (1 < rejections cs i d \<longrightarrow> nc_constraints h cur i d cs = Inl KeyError)"
  using assms
proof (induction cs)
  case Nil
  then show ?case by (simp add: rejections_simps)
next
  case (Cons c cs)
  show ?case
  proof (cases "rejects c i d")
    case False
    then have "nc_constraints h cur i d (c # cs) = nc_constraints h cur i d cs"
      by (auto simp: rejects_def)
    with Cons False show ?thesis by (simp add: rejections_simps)
  next
    case True
    let ?h1 = "h\<lparr>objs := (objs h)(cur := removeAll d (objs h cur))\<rparr>"
    from Cons.prems have rm: "set_remove h cur d = Inr ?h1" by (simp add: set_remove_def)
    from True rm have step: "nc_constraints h cur i d (c # cs) = nc_constraints ?h1 cur i d cs"
      by (simp add: rejects_def)
    have "d \<notin> set (objs ?h1 cur)" by simp
    note rest = nc_constraints_absent [OF this, of i cs]
    have p: "objs ?h1 cur = removeAll d (objs h cur)" "same_but h ?h1 cur"
      by (simp_all add: same_but_def)
    show ?thesis
    proof (cases "rejections cs i d = 0")
      case z: True
      with True step rest p show ?thesis by (simp add: rejections_simps)
    next
      case nz: False
      with True step rest show ?thesis by (simp add: rejections_simps)
    qed
  qed
qed

lemma nc_dates_result:
  assumes "objs h cur = keep @ ds" and "distinct (keep @ ds)"
  shows "(if \<forall>d\<in>set ds. rejections cs i d \<le> 1
          then \<exists>h'. nc_dates h cur i ds cs = Inr h' \<and>
                 objs h' cur = keep @ filter (\<lambda>d. rejections cs i d = 0) ds \<and> same_but h h' cur
          else nc_dates h cur i ds cs = Inl KeyError)"
  using assms
proof (induction ds arbitrary: h keep)
  case Nil
  then show ?case by (simp add: same_but_def)
next
  case (Cons d ds)
  from Cons.prems have mem: "d \<in> set (objs h cur)" by simp
  note one = nc_constraints_result [OF mem, of cs i]
  consider (zero) "rejections cs i d = 0" | (once) "rejections cs i d = 1"
    | (more) "1 < rejections cs i d" by linarith
  then show ?case
  proof cases
    case zero
    with one have st: "nc_constraints h cur i d cs = Inr h" by simp
    from Cons.prems have "objs h cur = (keep @ [d]) @ ds" "distinct ((keep @ [d]) @ ds)"
      by simp_all
    from Cons.IH [OF this] st zero show ?thesis by (auto split: if_splits)
  next
    case once
    with one obtain h1 where st: "nc_constraints h cur i d cs = Inr h1"
      and o: "objs h1 cur = removeAll d (objs h cur)" and sb: "same_but h h1 cur" by blast
    from Cons.prems have "removeAll d (keep @ d # ds) = keep @ ds" by simp
    with Cons.prems o have "objs h1 cur = keep @ ds" "distinct (keep @ ds)" by simp_all
    from Cons.IH [OF this] have ih:
      "(if \<forall>d\<in>set ds. rejections cs i d \<le> 1
        then \<exists>h'. nc_dates h1 cur i ds cs = Inr h' \<and>
               objs h' cur = keep @ filter (\<lambda>d. rejections cs i d = 0) ds \<and> same_but h1 h' cur
        else nc_dates h1 cur i ds cs = Inl KeyError)" .
    show ?thesis
    proof (cases "\<forall>d\<in>set ds. rejections cs i d \<le> 1")
      case True
      with ih obtain h' where "nc_dates h1 cur i ds cs = Inr h'"
        "objs h' cur = keep @ filter (\<lambda>d. rejections cs i d = 0) ds" "same_but h1 h' cur"
        by auto
      with sb have "nc_dates h cur i (d # ds) cs = Inr h'"
        "objs h' cur = keep @ filter (\<lambda>d. rejections cs i d = 0) (d # ds)" "same_but h h' cur"
        using st once by (simp_all add: same_but_def)
      with True once show ?thesis by auto
    next
      case False
      with ih have "nc_dates h1 cur i ds cs = Inl KeyError" by simp
      with st have "nc_dates h cur i (d # ds) cs = Inl KeyError" by simp
      moreover from False have "\<not> (\<forall>d\<in>set (d # ds). rejections cs i d \<le> 1)" by simp
      ultimately show ?thesis by simp
    qed
  next
    case more
    with one have "nc_constraints h cur i d cs = Inl KeyError" by simp
    with more show ?thesis by auto
  qed
qed

text \<open>The addresses of \<open>n\<close> sets created one after the other from address \<open>b\<close> on.\<close>

definition fresh_refs :: "addr \<Rightarrow> nat \<Rightarrow> addr list" where
  "fresh_refs b n = [b ..< b + n]"

lemma fresh_refs_simps:
  "fresh_refs b 0 = []"
  "fresh_refs b (Suc n) = b # fresh_refs (Suc b) n"
  using upt_from [of b n] by (simp_all add: fresh_refs_def)

lemma copy_all_sets:
  assumes "\<forall>p\<in>set ps. p < nxt h"
  shows "\<exists>h1. copy_all h (map SetRef ps) = Inr (h1, fresh_refs (nxt h) (length ps)) \<and>
           nxt h1 = nxt h + length ps \<and> (\<forall>q<nxt h. objs h1 q = objs h q) \<and>
           (\<forall>j<length ps. objs h1 (nxt h + j) = objs h (ps ! j))"
  using assms
proof (induction ps arbitrary: h)
  case Nil
  then show ?case by (simp add: fresh_refs_simps)
next
  case (Cons p ps)
  let ?h' = "fst (alloc h (objs h p))"
  have n': "nxt ?h' = Suc (nxt h)" and o': "objs ?h' (nxt h) = objs h p"
    and old: "\<forall>q<nxt h. objs ?h' q = objs h q"
    by (simp_all add: alloc_def)
  from Cons.prems n' have "\<forall>p\<in>set ps. p < nxt ?h'" by auto
  from Cons.IH [OF this] obtain h1 where
    c: "copy_all ?h' (map SetRef ps) = Inr (h1, fresh_refs (nxt ?h') (length ps))"
    and n1: "nxt h1 = nxt ?h' + length ps"
    and o1: "\<forall>q<nxt ?h'. objs h1 q = objs ?h' q"
    and c1: "\<forall>j<length ps. objs h1 (nxt ?h' + j) = objs ?h' (ps ! j)"
    by blast
  from c n' have "copy_all h (map SetRef (p # ps))
                    = Inr (h1, fresh_refs (nxt h) (length (p # ps)))"
    by (simp add: alloc_def fresh_refs_simps)
  moreover from n1 n' have "nxt h1 = nxt h + length (p # ps)" by simp
  moreover from o1 old n' have "\<forall>q<nxt h. objs h1 q = objs h q" by simp
  moreover have "\<forall>j<length (p # ps). objs h1 (nxt h + j) = objs h ((p # ps) ! j)"
  proof (intro allI impI)
    fix j assume j: "j < length (p # ps)"
    show "objs h1 (nxt h + j) = objs h ((p # ps) ! j)"
    proof (cases j)
      case 0
      with o1 n' o' show ?thesis by simp
    next
      case (Suc k)
      with j have k: "k < length ps" by simp
      then have "ps ! k \<in> set ps" by simp
      with Cons.prems have "ps ! k < nxt h" by simp
      with c1 k old n' Suc show ?thesis by simp
    qed
  qed
  ultimately show ?case by blast
qed

lemma nc_loop_result:
  assumes "\<forall>p\<in>set ps. p < c \<and> distinct (objs g p)"
    and "\<forall>j<length ps. objs g (c + j) = objs g (ps ! j)"
  shows "(if \<forall>j<length ps. \<forall>d\<in>set (objs g (ps ! j)). rejections cs (k + j) d \<le> 1
          then \<exists>g'. nc_loop g k (zip (map SetRef ps) (fresh_refs c (length ps))) cs = Inr g' \<and>
                 nxt g' = nxt g \<and>
                 (\<forall>q. q < c \<or> c + length ps \<le> q \<longrightarrow> objs g' q = objs g q) \<and>
                 (\<forall>j<length ps. objs g' (c + j)
                                   = filter (\<lambda>d. rejections cs (k + j) d = 0) (objs g (ps ! j)))
          else nc_loop g k (zip (map SetRef ps) (fresh_refs c (length ps))) cs = Inl KeyError)"
  using assms
proof (induction ps arbitrary: g k c)
  case Nil
  then show ?case by (simp add: fresh_refs_simps)
next
  case (Cons p ps)
  let ?zs = "zip (map SetRef ps) (fresh_refs (Suc c) (length ps))"
  have zs: "zip (map SetRef (p # ps)) (fresh_refs c (length (p # ps))) = (SetRef p, c) # ?zs"
    by (simp add: fresh_refs_simps)
  from Cons.prems(1) have p: "p < c" "distinct (objs g p)" by simp_all
  from Cons.prems(2) have cp: "objs g c = objs g p" by force
  with p have pre: "objs g c = [] @ objs g p" "distinct ([] @ objs g p)" by simp_all
  note dates = nc_dates_result [OF pre, where i = k and cs = cs]
  show ?case
  proof (cases "\<forall>d\<in>set (objs g p). rejections cs k d \<le> 1")
    case False
    with dates have "nc_dates g c k (objs g p) cs = Inl KeyError" by simp
    then have "nc_loop g k ((SetRef p, c) # ?zs) cs = Inl KeyError" by simp
    moreover from False have
      "\<not> (\<forall>j<length (p # ps). \<forall>d\<in>set (objs g ((p # ps) ! j)). rejections cs (k + j) d \<le> 1)"
      by force
    ultimately show ?thesis unfolding zs by simp
  next
    case True
    with dates obtain g1 where d1: "nc_dates g c k (objs g p) cs = Inr g1"
      and o1: "objs g1 c = filter (\<lambda>d. rejections cs k d = 0) (objs g p)"
      and sb: "same_but g g1 c" by auto
    from sb have fr: "nxt g1 = nxt g" "\<And>q. q \<noteq> c \<Longrightarrow> objs g1 q = objs g q"
      by (simp_all add: same_but_def)
    from d1 have step: "nc_loop g k ((SetRef p, c) # ?zs) cs = nc_loop g1 (Suc k) ?zs cs"
      by simp
    have a1: "\<forall>p\<in>set ps. p < Suc c \<and> distinct (objs g1 p)"
      using Cons.prems(1) fr(2) by auto
    have old: "objs g1 (ps ! j) = objs g (ps ! j)" if "j < length ps" for j
    proof -
      from that have "ps ! j \<in> set ps" by simp
      with Cons.prems(1) have "ps ! j < c" by simp
      with fr(2) show ?thesis by simp
    qed
    have a2: "\<forall>j<length ps. objs g1 (Suc c + j) = objs g1 (ps ! j)"
    proof (intro allI impI)
      fix j assume j: "j < length ps"
      from Cons.prems(2) j have "objs g (c + Suc j) = objs g ((p # ps) ! Suc j)" by force
      with fr(2) [of "Suc c + j"] old [OF j] show "objs g1 (Suc c + j) = objs g1 (ps ! j)"
        by simp
    qed
    note ih = Cons.IH [OF a1 a2, where k = "Suc k"]
    have cond: "(\<forall>j<length (p # ps). \<forall>d\<in>set (objs g ((p # ps) ! j)). rejections cs (k + j) d \<le> 1)
                  = (\<forall>j<length ps. \<forall>d\<in>set (objs g1 (ps ! j)). rejections cs (Suc k + j) d \<le> 1)"
      (is "?L = ?R")
    proof
      assume l: ?L
      show ?R
      proof (intro allI impI ballI)
        fix j d assume j: "j < length ps" and d: "d \<in> set (objs g1 (ps ! j))"
        from l j have "\<forall>d\<in>set (objs g ((p # ps) ! Suc j)). rejections cs (k + Suc j) d \<le> 1"
          by force
        with d old [OF j] show "rejections cs (Suc k + j) d \<le> 1" by simp
      qed
    next
      assume r: ?R
      show ?L
      proof (intro allI impI ballI)
        fix j d assume j: "j < length (p # ps)" and d: "d \<in> set (objs g ((p # ps) ! j))"
        show "rejections cs (k + j) d \<le> 1"
        proof (cases j)
          case 0
          with d True show ?thesis by simp
        next
          case (Suc i)
          with j have i: "i < length ps" by simp
          with r d Suc old [OF i] show ?thesis by simp
        qed
      qed
    qed
    show ?thesis
    proof (cases ?R)
      case False
      with ih have "nc_loop g1 (Suc k) ?zs cs = Inl KeyError" by simp
      with step False cond show ?thesis unfolding zs by simp
    next
      case r: True
      with ih obtain g' where l: "nc_loop g1 (Suc k) ?zs cs = Inr g'"
        and n: "nxt g' = nxt g1"
        and f: "\<forall>q. q < Suc c \<or> Suc c + length ps \<le> q \<longrightarrow> objs g' q = objs g1 q"
        and v: "\<forall>j<length ps. objs g' (Suc c + j)
                  = filter (\<lambda>d. rejections cs (Suc k + j) d = 0) (objs g1 (ps ! j))"
        by auto
      have "nc_loop g k (zip (map SetRef (p # ps)) (fresh_refs c (length (p # ps)))) cs = Inr g'"
        unfolding zs using step l by simp
      moreover have "nxt g' = nxt g" using n fr(1) by simp
      moreover have "\<forall>q. q < c \<or> c + length (p # ps) \<le> q \<longrightarrow> objs g' q = objs g q"
        using f fr(2) by auto
      moreover have "\<forall>j<length (p # ps). objs g' (c + j)
                       = filter (\<lambda>d. rejections cs (k + j) d = 0) (objs g ((p # ps) ! j))"
      proof (intro allI impI)
        fix j assume j: "j < length (p # ps)"
        show "objs g' (c + j) = filter (\<lambda>d. rejections cs (k + j) d = 0) (objs g ((p # ps) ! j))"
        proof (cases j)
          case 0
          with f o1 show ?thesis by simp
        next
          case (Suc i)
          with j have i: "i < length ps" by simp
          with v have "objs g' (Suc c + i)
                  = filter (\<lambda>d. rejections cs (Suc k + i) d = 0) (objs g1 (ps ! i))" by simp
          with Suc old [OF i] show ?thesis by simp
        qed
      qed
      ultimately show ?thesis using r cond by auto
    qed
  qed
qed

lemma fresh_refs_nth:
  "length (fresh_refs b n) = n" "j < n \<Longrightarrow> fresh_refs b n ! j = b + j"
  by (simp_all add: fresh_refs_def)

text \<open>
  What \<open>node_consistency\<close> does on a list of references to sets of the store: it raises
  \<open>KeyError\<close> when some value of some domain is rejected by two or more of the
  constraints, and otherwise returns a new set for every domain, holding the values of the
  domain that no unary constraint on its meeting rejects, in their order; the sets that
  were in the store stay as they are.
\<close>

lemma node_consistency_result:
  assumes "\<forall>p\<in>set ps. p < nxt h \<and> distinct (objs h p)"
  shows "(if \<forall>j<length ps. \<forall>d\<in>set (objs h (ps ! j)). rejections cs j d \<le> 1
          then \<exists>h1. node_consistency h (map SetRef ps) cs
                       = Inr (h1, fresh_refs (nxt h) (length ps)) \<and>
                 nxt h1 = nxt h + length ps \<and> (\<forall>q<nxt h. objs h1 q = objs h q) \<and>
                 (\<forall>j<length ps. objs h1 (nxt h + j)
                                   = filter (\<lambda>d. rejections cs j d = 0) (objs h (ps ! j)))
          else node_consistency h (map SetRef ps) cs = Inl KeyError)"
proof -
  from assms have "\<forall>p\<in>set ps. p < nxt h" by simp
  from copy_all_sets [OF this] obtain h0 where
    cp: "copy_all h (map SetRef ps) = Inr (h0, fresh_refs (nxt h) (length ps))"
    and n0: "nxt h0 = nxt h + length ps" and old: "\<forall>q<nxt h. objs h0 q = objs h q"
    and cop: "\<forall>j<length ps. objs h0 (nxt h + j) = objs h (ps ! j)"
    by blast
  have same: "objs h0 (ps ! j) = objs h (ps ! j)" if "j < length ps" for j
  proof -
    from that have "ps ! j \<in> set ps" by simp
    with assms old show ?thesis by simp
  qed
  have a1: "\<forall>p\<in>set ps. p < nxt h \<and> distinct (objs h0 p)" using assms old by simp
  have a2: "\<forall>j<length ps. objs h0 (nxt h + j) = objs h0 (ps ! j)" using cop same by simp
  note lp = nc_loop_result [OF a1 a2, where k = 0 and cs = cs]
  have cond: "(\<forall>j<length ps. \<forall>d\<in>set (objs h0 (ps ! j)). rejections cs (0 + j) d \<le> 1)
                = (\<forall>j<length ps. \<forall>d\<in>set (objs h (ps ! j)). rejections cs j d \<le> 1)"
    using same by simp
  show ?thesis
  proof (cases "\<forall>j<length ps. \<forall>d\<in>set (objs h (ps ! j)). rejections cs j d \<le> 1")
    case False
    with lp cond have
      "nc_loop h0 0 (zip (map SetRef ps) (fresh_refs (nxt h) (length ps))) cs = Inl KeyError"
      by simp
    with cp False show ?thesis by (simp add: node_consistency_def)
  next
    case True
    with lp cond obtain h1 where
      l: "nc_loop h0 0 (zip (map SetRef ps) (fresh_refs (nxt h) (length ps))) cs = Inr h1"
      and n1: "nxt h1 = nxt h0"
      and f: "\<forall>q. q < nxt h \<or> nxt h + length ps \<le> q \<longrightarrow> objs h1 q = objs h0 q"
      and v: "\<forall>j<length ps. objs h1 (nxt h + j)
                = filter (\<lambda>d. rejections cs (0 + j) d = 0) (objs h0 (ps ! j))"
      by auto
    from cp l have "node_consistency h (map SetRef ps) cs
                      = Inr (h1, fresh_refs (nxt h) (length ps))"
      by (simp add: node_consistency_def)
    moreover from n1 n0 have "nxt h1 = nxt h + length ps" by simp
    moreover from f old have "\<forall>q<nxt h. objs h1 q = objs h q" by simp
    moreover from v same have
      "\<forall>j<length ps. objs h1 (nxt h + j) = filter (\<lambda>d. rejections cs j d = 0) (objs h (ps ! j))"
      by simp
    ultimately show ?thesis using True by auto
  qed
qed

text \<open>A second run of \<open>node_consistency\<close> on the domains a first run has returned
  returns too, and the domains hold the same values.\<close>

lemma node_consistency_idempotent:
  assumes "\<forall>p\<in>set ps. p < nxt h \<and> distinct (objs h p)"
    and "node_consistency h (map SetRef ps) cs = Inr (h1, doms)"
  shows "\<exists>h2 doms2. node_consistency h1 (map SetRef doms) cs = Inr (h2, doms2) \<and>
           map (objs h2) doms2 = map (objs h1) doms"
proof -
  let ?n = "length ps"
  note r1 = node_consistency_result [OF assms(1), of cs]
  from r1 assms(2) have c1: "\<forall>j<?n. \<forall>d\<in>set (objs h (ps ! j)). rejections cs j d \<le> 1"
    by (auto split: if_splits)
  with r1 assms(2) have doms: "doms = fresh_refs (nxt h) ?n"
    and n1: "nxt h1 = nxt h + ?n"
    and v1: "\<forall>j<?n. objs h1 (nxt h + j) = filter (\<lambda>d. rejections cs j d = 0) (objs h (ps ! j))"
    by auto
  have len: "length doms = ?n" and nth: "\<And>j. j < ?n \<Longrightarrow> doms ! j = nxt h + j"
    using doms by (simp_all add: fresh_refs_nth)
  have wf: "\<forall>p\<in>set doms. p < nxt h1 \<and> distinct (objs h1 p)"
  proof
    fix p assume "p \<in> set doms"
    then obtain j where j: "j < ?n" "p = nxt h + j"
      using len nth by (auto simp: in_set_conv_nth)
    then have "ps ! j \<in> set ps" by simp
    with assms(1) have "distinct (objs h (ps ! j))" by simp
    with v1 j n1 show "p < nxt h1 \<and> distinct (objs h1 p)" by simp
  qed
  have c2: "\<forall>j<length doms. \<forall>d\<in>set (objs h1 (doms ! j)). rejections cs j d \<le> 1"
    using v1 len nth by simp
  from node_consistency_result [OF wf, of cs] c2 obtain h2 where
    r2: "node_consistency h1 (map SetRef doms) cs = Inr (h2, fresh_refs (nxt h1) (length doms))"
    and v2: "\<forall>j<length doms. objs h2 (nxt h1 + j)
               = filter (\<lambda>d. rejections cs j d = 0) (objs h1 (doms ! j))"
    by auto
  have "map (objs h2) (fresh_refs (nxt h1) (length doms)) = map (objs h1) doms"
  proof (rule nth_equalityI)
    show "length (map (objs h2) (fresh_refs (nxt h1) (length doms))) = length (map (objs h1) doms)"
      by (simp add: fresh_refs_nth)
  next
    fix j assume "j < length (map (objs h2) (fresh_refs (nxt h1) (length doms)))"
    then have j: "j < ?n" by (simp add: fresh_refs_nth len)
    with v2 len have "objs h2 (nxt h1 + j)
                        = filter (\<lambda>d. rejections cs j d = 0) (objs h1 (doms ! j))" by simp
    also from v1 j nth have "\<dots> = objs h1 (doms ! j)" by simp
    finally show "map (objs h2) (fresh_refs (nxt h1) (length doms)) ! j = map (objs h1) doms ! j"
      using j len by (simp add: fresh_refs_nth)
  qed
  with r2 show ?thesis by blast
qed

section \<open>A revision as a filter\<close>

text \<open>A value \<open>t\<close> of the tail domain is supported when some value of the head domain,
  the set at address \<open>hp\<close>, satisfies the constraint together with it.\<close>

definition supported :: "heap \<Rightarrow> addr \<Rightarrow> constraint \<Rightarrow> datetime \<Rightarrow> bool" where
  "supported h hp c t = list_ex (\<lambda>hd. is_satisfied_by_values c t (Some hd)) (objs h hp)"

lemma revise_loop_filter:
  assumes "tp \<noteq> hp" and "objs h tp = keep @ ts" and "distinct (keep @ ts)"
  shows "\<exists>h'. revise_loop h tp hp c ts removed
                = Inr (h', removed \<or> (\<exists>t\<in>set ts. \<not> supported h hp c t)) \<and>
              objs h' tp = keep @ filter (supported h hp c) ts \<and>
              nxt h' = nxt h \<and> (\<forall>q. q \<noteq> tp \<longrightarrow> objs h' q = objs h q)"
  using assms
proof (induction ts arbitrary: h keep removed)
  case Nil
  then show ?case by simp
next
  case (Cons t ts)
  show ?case
  proof (cases "supported h hp c t")
    case True
    from Cons.prems have "objs h tp = (keep @ [t]) @ ts" "distinct ((keep @ [t]) @ ts)" by simp_all
    from Cons.IH [OF Cons.prems(1) this, of removed] True show ?thesis
      by (auto simp: supported_def)
  next
    case False
    let ?h1 = "h\<lparr>objs := (objs h)(tp := removeAll t (objs h tp))\<rparr>"
    from Cons.prems have rm: "set_remove h tp t = Inr ?h1" by (simp add: set_remove_def)
    from Cons.prems have "removeAll t (keep @ t # ts) = keep @ ts"
      by simp
    with Cons.prems have o1: "objs ?h1 tp = keep @ ts" by simp
    from Cons.prems have d1: "distinct (keep @ ts)" by simp
    have same: "supported ?h1 hp c = supported h hp c"
      using Cons.prems(1) by (simp add: supported_def fun_eq_iff)
    from Cons.IH [OF Cons.prems(1) o1 d1, of True] obtain h' where
      r: "revise_loop ?h1 tp hp c ts True = Inr (h', True)"
      and o: "objs h' tp = keep @ filter (supported ?h1 hp c) ts"
      and n: "nxt h' = nxt ?h1" and fr: "\<forall>q. q \<noteq> tp \<longrightarrow> objs h' q = objs ?h1 q"
      by auto
    from False rm r have "revise_loop h tp hp c (t # ts) removed = Inr (h', True)"
      by (simp add: supported_def)
    with False o n fr same show ?thesis by auto
  qed
qed

lemma inconsistent_val_removal_filter:
  assumes "TAIL a < length doms" and "HEAD a < length doms"
    and "doms ! TAIL a \<noteq> doms ! HEAD a" and "distinct (objs h (doms ! TAIL a))"
  shows "\<exists>h'. inconsistent_val_removal h doms a
                = Inr (h', \<exists>t\<in>set (objs h (doms ! TAIL a)).
                             \<not> supported h (doms ! HEAD a) (CONSTRAINT a) t) \<and>
              objs h' (doms ! TAIL a)
                = filter (supported h (doms ! HEAD a) (CONSTRAINT a)) (objs h (doms ! TAIL a)) \<and>
              nxt h' = nxt h \<and> (\<forall>q. q \<noteq> doms ! TAIL a \<longrightarrow> objs h' q = objs h q)"
  using revise_loop_filter [OF assms(3), of h "[]" "objs h (doms ! TAIL a)" "CONSTRAINT a" False]
    assms(1,2,4)
  by (simp add: inconsistent_val_removal_def)

section \<open>Arc consistency in every order of the worklist\<close>

text \<open>The four Arcs of \<open>loose\<close> and \<open>exact\<close>.\<close>

definition arc_loose :: arc where
  "arc_loose = \<lparr>CONSTRAINT = loose, TAIL = 0, HEAD = 1\<rparr>"
definition arc_loose_rev :: arc where
  "arc_loose_rev = \<lparr>CONSTRAINT = get_reverse loose, TAIL = 1, HEAD = 0\<rparr>"
definition arc_exact :: arc where
  "arc_exact = \<lparr>CONSTRAINT = exact, TAIL = 0, HEAD = 1\<rparr>"
definition arc_exact_rev :: arc where
  "arc_exact_rev = \<lparr>CONSTRAINT = get_reverse exact, TAIL = 1, HEAD = 0\<rparr>"

lemmas chain_arcs = arc_loose_def arc_loose_rev_def arc_exact_def arc_exact_rev_def

lemma chain_arcs_distinct:
  "arc_loose \<noteq> arc_loose_rev" "arc_loose \<noteq> arc_exact" "arc_loose \<noteq> arc_exact_rev"
  "arc_loose_rev \<noteq> arc_exact" "arc_loose_rev \<noteq> arc_exact_rev" "arc_exact \<noteq> arc_exact_rev"
  by (simp_all add: chain_arcs chain_simps)

lemma init_arcs_chain:
  "init_arcs [] [loose, exact] = Inr [arc_loose, arc_loose_rev, arc_exact, arc_exact_rev]"
  by (simp add: chain_arcs chain_simps Arc_init_def arcs_add_def)

lemma readd_chain:
  "readd rest 0 [loose, exact] = Inr rest"
  "readd rest (Suc 0) [loose, exact] = Inr (arcs_add (arcs_add rest arc_loose) arc_exact)"
  by (simp_all add: chain_arcs loose_def exact_def Arc_init_def)

lemma supported_chain:
  "supported h hp loose = (\<lambda>t. \<exists>y\<in>set (objs h hp). y < t + 10 \<or> t = 3)"
  "supported h hp exact = (\<lambda>t. \<exists>y\<in>set (objs h hp). y = t + 10)"
  "supported h hp (get_reverse loose) = (\<lambda>t. \<exists>x\<in>set (objs h hp). t < x + 10 \<or> x = 3)"
  "supported h hp (get_reverse exact) = (\<lambda>t. \<exists>x\<in>set (objs h hp). t = x + 10)"
  by (simp_all add: supported_def loose_def exact_def list_ex_iff fun_eq_iff)

lemma pop_rest:
  assumes "distinct arcs" and "i < length arcs"
  shows "set (take i arcs @ drop (Suc i) arcs) = set arcs - {arcs ! i}"
    and "distinct (take i arcs @ drop (Suc i) arcs)"
proof -
  have arcs: "arcs = take i arcs @ arcs ! i # drop (Suc i) arcs"
    using assms(2) by (simp add: id_take_nth_drop)
  from assms(1) have d: "distinct (take i arcs @ arcs ! i # drop (Suc i) arcs)"
    using arcs by simp
  then show "distinct (take i arcs @ drop (Suc i) arcs)" by simp
  from d have "arcs ! i \<notin> set (take i arcs @ drop (Suc i) arcs)" by auto
  moreover have "set arcs = insert (arcs ! i) (set (take i arcs @ drop (Suc i) arcs))"
    by (subst arcs) simp
  ultimately show "set (take i arcs @ drop (Suc i) arcs) = set arcs - {arcs ! i}" by auto
qed

lemma arcs_add_set: "set (arcs_add arcs a) = insert a (set arcs)"
  and arcs_add_distinct: "distinct arcs \<Longrightarrow> distinct (arcs_add arcs a)"
  by (auto simp: arcs_add_def)

definition chain_arc :: "arc \<Rightarrow> bool" where
  "chain_arc a = (a \<in> {arc_loose, arc_loose_rev, arc_exact, arc_exact_rev})"

lemma chain_step:
  assumes "arcs \<noteq> []" and "distinct arcs" and "\<forall>a\<in>set arcs. chain_arc a"
    and "distinct (objs h 0)" and "distinct (objs h (Suc 0))"
  shows "\<exists>a\<in>set arcs. \<exists>h1 arcs1.
           ac_step sched h [0, 1] [loose, exact] arcs = Inr (h1, arcs1) \<and>
           objs h1 (TAIL a) = filter (supported h (HEAD a) (CONSTRAINT a)) (objs h (TAIL a)) \<and>
           objs h1 (HEAD a) = objs h (HEAD a) \<and> distinct arcs1 \<and>
           set arcs1 = (set arcs - {a}) \<union>
             (if (\<exists>t\<in>set (objs h (TAIL a)). \<not> supported h (HEAD a) (CONSTRAINT a) t) \<and> TAIL a = 1
              then {arc_loose, arc_exact} else {})"
proof -
  let ?i = "pop_index sched arcs"
  let ?a = "arcs ! ?i"
  let ?rest = "take ?i arcs @ drop (Suc ?i) arcs"
  have i: "?i < length arcs"
    using assms(1) by (cases sched) (simp_all add: pop_index_def)
  then have mem: "?a \<in> set arcs" by simp
  with assms(3) have ca: "chain_arc ?a" by blast
  then have th: "(TAIL ?a = 0 \<and> HEAD ?a = 1) \<or> (TAIL ?a = 1 \<and> HEAD ?a = 0)"
    by (auto simp: chain_arc_def chain_arcs)
  then have rng: "TAIL ?a < length [0::nat, 1]" "HEAD ?a < length [0::nat, 1]"
    and ne: "[0::nat, 1] ! TAIL ?a \<noteq> [0, 1] ! HEAD ?a"
    and tl: "[0::nat, 1] ! TAIL ?a = TAIL ?a" and hd: "[0::nat, 1] ! HEAD ?a = HEAD ?a"
    by auto
  from th assms(4,5) have dt: "distinct (objs h ([0::nat, 1] ! TAIL ?a))" by auto
  define removed where
    "removed = (\<exists>t\<in>set (objs h (TAIL ?a)). \<not> supported h (HEAD ?a) (CONSTRAINT ?a) t)"
  from inconsistent_val_removal_filter [OF rng ne dt] obtain h1 where
    ivr: "inconsistent_val_removal h [0, 1] ?a = Inr (h1, removed)"
    and o: "objs h1 (TAIL ?a) = filter (supported h (HEAD ?a) (CONSTRAINT ?a)) (objs h (TAIL ?a))"
    and fr: "\<forall>q. q \<noteq> TAIL ?a \<longrightarrow> objs h1 q = objs h q"
    unfolding tl hd removed_def by blast
  from th fr have oh: "objs h1 (HEAD ?a) = objs h (HEAD ?a)" by auto
  note rest = pop_rest [OF assms(2) i]
  let ?arcs1 = "arcs_add (arcs_add ?rest arc_loose) arc_exact"
  have step: "ac_step sched h [0, 1] [loose, exact] arcs
                = Inr (h1, if removed \<and> TAIL ?a = 1 then ?arcs1 else ?rest)"
  proof (cases removed)
    case False
    with ivr show ?thesis unfolding ac_step_def Let_def by simp
  next
    case True
    show ?thesis
    proof (cases "TAIL ?a = 1")
      case t: True
      then have rd: "readd ?rest (TAIL ?a) [loose, exact] = Inr ?arcs1"
        using readd_chain(2) [of ?rest] by simp
      from True t ivr show ?thesis unfolding ac_step_def Let_def rd by simp
    next
      case f: False
      with th have "TAIL ?a = 0" by auto
      then have rd: "readd ?rest (TAIL ?a) [loose, exact] = Inr ?rest"
        using readd_chain(1) [of ?rest] by simp
      from True f ivr show ?thesis unfolding ac_step_def Let_def rd by simp
    qed
  qed
  have d1: "distinct (if removed \<and> TAIL ?a = 1 then ?arcs1 else ?rest)"
    using rest(2) by (simp add: arcs_add_distinct)
  have s1: "set (if removed \<and> TAIL ?a = 1 then ?arcs1 else ?rest) =
              (set arcs - {?a}) \<union> (if removed \<and> TAIL ?a = 1 then {arc_loose, arc_exact} else {})"
    using rest(1) by (auto simp: arcs_add_set)
  from step o oh d1 s1 mem show ?thesis
    unfolding removed_def by blast
qed

text \<open>
  What every pass of the loop keeps true on the domains days 1, 2, 3 and days 11, 12, 13
  under \<open>loose\<close> and \<open>exact\<close>, whichever Arc it pops: days 3, 12 and 13 stay, and
  either day 11 and day 2 are still there (and the Arc of \<open>loose\<close> is waiting as long as
  day 1 is), or the Arc of the reverse of \<open>exact\<close> has been used up and days 11 and 1
  are gone (and the Arc of \<open>loose\<close> is waiting as long as day 2 is).
\<close>

definition chain_inv :: "heap \<Rightarrow> arc list \<Rightarrow> bool" where
  "chain_inv h arcs =
     (distinct arcs \<and> (\<forall>a\<in>set arcs. chain_arc a) \<and>
      distinct (objs h 0) \<and> distinct (objs h (Suc 0)) \<and>
      set (objs h 0) \<subseteq> {1, 2, 3} \<and> set (objs h (Suc 0)) \<subseteq> {11, 12, 13} \<and>
      3 \<in> set (objs h 0) \<and> 12 \<in> set (objs h (Suc 0)) \<and> 13 \<in> set (objs h (Suc 0)) \<and>
      ((11 \<in> set (objs h (Suc 0)) \<and> 2 \<in> set (objs h 0) \<and>
        (1 \<in> set (objs h 0) \<longrightarrow> arc_loose \<in> set arcs)) \<or>
       (arc_exact_rev \<notin> set arcs \<and> 11 \<notin> set (objs h (Suc 0)) \<and> 1 \<notin> set (objs h 0) \<and>
        (2 \<in> set (objs h 0) \<longrightarrow> arc_loose \<in> set arcs))))"

lemma chain_inv_step:
  assumes "chain_inv h arcs" and "arcs \<noteq> []"
  shows "\<exists>h1 arcs1. ac_step sched h [0, 1] [loose, exact] arcs = Inr (h1, arcs1) \<and>
           chain_inv h1 arcs1"
proof -
  let ?D0 = "set (objs h 0)" and ?D1 = "set (objs h (Suc 0))"
  from assms(1) have d: "distinct arcs" and ca: "\<forall>a\<in>set arcs. chain_arc a"
    and d0: "distinct (objs h 0)" and d1: "distinct (objs h (Suc 0))"
    and s0: "?D0 \<subseteq> {1, 2, 3}" and s1: "?D1 \<subseteq> {11, 12, 13}"
    and k3: "3 \<in> ?D0" and k12: "12 \<in> ?D1" and k13: "13 \<in> ?D1"
    and xy: "(11 \<in> ?D1 \<and> 2 \<in> ?D0 \<and> (1 \<in> ?D0 \<longrightarrow> arc_loose \<in> set arcs)) \<or>
             (arc_exact_rev \<notin> set arcs \<and> 11 \<notin> ?D1 \<and> 1 \<notin> ?D0 \<and>
              (2 \<in> ?D0 \<longrightarrow> arc_loose \<in> set arcs))"
    by (simp_all add: chain_inv_def)
  from chain_step [OF assms(2) d ca d0 d1, of sched] obtain a h1 arcs1 where
    a: "a \<in> set arcs"
    and st: "ac_step sched h [0, 1] [loose, exact] arcs = Inr (h1, arcs1)"
    and ot: "objs h1 (TAIL a) = filter (supported h (HEAD a) (CONSTRAINT a)) (objs h (TAIL a))"
    and oh: "objs h1 (HEAD a) = objs h (HEAD a)"
    and da: "distinct arcs1"
    and sa: "set arcs1 = (set arcs - {a}) \<union>
               (if (\<exists>t\<in>set (objs h (TAIL a)). \<not> supported h (HEAD a) (CONSTRAINT a) t) \<and> TAIL a = 1
                then {arc_loose, arc_exact} else {})"
    by blast
  have lt11: "\<not> y < 11" if "y \<in> ?D1" for y using that s1 by auto
  have lt12: "(\<exists>y\<in>?D1. y < 12) = (11 \<in> ?D1)"
  proof
    assume "\<exists>y\<in>?D1. y < 12"
    then obtain y where "y \<in> ?D1" "y < 12" by blast
    with s1 show "11 \<in> ?D1" by auto
  next
    assume "11 \<in> ?D1"
    then show "\<exists>y\<in>?D1. y < 12" by (intro bexI [of _ 11]) auto
  qed
  from a ca have "a = arc_loose \<or> a = arc_loose_rev \<or> a = arc_exact \<or> a = arc_exact_rev"
    by (auto simp: chain_arc_def)
  then have "chain_inv h1 arcs1"
  proof (elim disjE)
    assume e: "a = arc_loose"
    from ot oh sa have
      o0: "objs h1 0 = filter (\<lambda>t. \<exists>y\<in>?D1. y < t + 10 \<or> t = 3) (objs h 0)"
      and o1: "objs h1 (Suc 0) = objs h (Suc 0)" and ar: "set arcs1 = set arcs - {arc_loose}"
      by (simp_all add: e arc_loose_def supported_chain)
    from o0 have sub: "set (objs h1 0) \<subseteq> ?D0" and dd: "distinct (objs h1 0)" using d0 by auto
    from o0 lt11 have m1: "1 \<notin> set (objs h1 0)" by auto
    from o0 lt12 have m2: "(2 \<in> set (objs h1 0)) = (2 \<in> ?D0 \<and> 11 \<in> ?D1)" by auto
    from o0 k3 k13 have m3: "3 \<in> set (objs h1 0)" by auto
    have ca1: "\<forall>a\<in>set arcs1. chain_arc a" using ca ar by auto
    have er: "arc_exact_rev \<notin> set arcs \<Longrightarrow> arc_exact_rev \<notin> set arcs1" using ar by auto
    from xy m1 m2 er have
      "(11 \<in> ?D1 \<and> 2 \<in> set (objs h1 0) \<and> (1 \<in> set (objs h1 0) \<longrightarrow> arc_loose \<in> set arcs1)) \<or>
       (arc_exact_rev \<notin> set arcs1 \<and> 11 \<notin> ?D1 \<and> 1 \<notin> set (objs h1 0) \<and>
        (2 \<in> set (objs h1 0) \<longrightarrow> arc_loose \<in> set arcs1))"
      by blast
    with da ca1 dd d1 sub s0 s1 m3 k12 k13 o1 show ?thesis
      unfolding chain_inv_def by auto
  next
    assume e: "a = arc_loose_rev"
    have all: "supported h 0 (get_reverse loose) = (\<lambda>t. True)"
      using k3 by (auto simp: supported_chain fun_eq_iff)
    from ot oh sa have o1: "objs h1 (Suc 0) = objs h (Suc 0)" and o0: "objs h1 0 = objs h 0"
      and ar: "set arcs1 = set arcs - {arc_loose_rev}"
      by (simp_all add: e arc_loose_rev_def all)
    have ca1: "\<forall>a\<in>set arcs1. chain_arc a" using ca ar by auto
    have er: "arc_exact_rev \<notin> set arcs \<Longrightarrow> arc_exact_rev \<notin> set arcs1" using ar by auto
    have lo: "arc_loose \<in> set arcs \<Longrightarrow> arc_loose \<in> set arcs1"
      using ar chain_arcs_distinct(1) by auto
    from xy er lo have
      "(11 \<in> ?D1 \<and> 2 \<in> ?D0 \<and> (1 \<in> ?D0 \<longrightarrow> arc_loose \<in> set arcs1)) \<or>
       (arc_exact_rev \<notin> set arcs1 \<and> 11 \<notin> ?D1 \<and> 1 \<notin> ?D0 \<and>
        (2 \<in> ?D0 \<longrightarrow> arc_loose \<in> set arcs1))"
      by blast
    with da ca1 d0 d1 s0 s1 k3 k12 k13 o0 o1 show ?thesis
      unfolding chain_inv_def by auto
  next
    assume e: "a = arc_exact"
    from ot oh sa have
      o0: "objs h1 0 = filter (\<lambda>t. \<exists>y\<in>?D1. y = t + 10) (objs h 0)"
      and o1: "objs h1 (Suc 0) = objs h (Suc 0)" and ar: "set arcs1 = set arcs - {arc_exact}"
      by (simp_all add: e arc_exact_def supported_chain)
    from o0 have sub: "set (objs h1 0) \<subseteq> ?D0" and dd: "distinct (objs h1 0)" using d0 by auto
    from o0 have m1: "(1 \<in> set (objs h1 0)) = (1 \<in> ?D0 \<and> 11 \<in> ?D1)" by auto
    from o0 k12 have m2: "(2 \<in> set (objs h1 0)) = (2 \<in> ?D0)" by auto
    from o0 k3 k13 have m3: "3 \<in> set (objs h1 0)" by auto
    have ca1: "\<forall>a\<in>set arcs1. chain_arc a" using ca ar by auto
    have er: "arc_exact_rev \<notin> set arcs \<Longrightarrow> arc_exact_rev \<notin> set arcs1" using ar by auto
    have lo: "arc_loose \<in> set arcs \<Longrightarrow> arc_loose \<in> set arcs1"
      using ar chain_arcs_distinct(2) by auto
    from xy m1 m2 er lo have
      "(11 \<in> ?D1 \<and> 2 \<in> set (objs h1 0) \<and> (1 \<in> set (objs h1 0) \<longrightarrow> arc_loose \<in> set arcs1)) \<or>
       (arc_exact_rev \<notin> set arcs1 \<and> 11 \<notin> ?D1 \<and> 1 \<notin> set (objs h1 0) \<and>
        (2 \<in> set (objs h1 0) \<longrightarrow> arc_loose \<in> set arcs1))"
      by blast
    with da ca1 dd d1 sub s0 s1 m3 k12 k13 o1 show ?thesis
      unfolding chain_inv_def by auto
  next
    assume e: "a = arc_exact_rev"
    with a xy have x: "11 \<in> ?D1" "2 \<in> ?D0" "1 \<in> ?D0 \<longrightarrow> arc_loose \<in> set arcs" by auto
    have "(\<exists>x\<in>?D0. t = x + 10) = (t - 10 \<in> ?D0)" for t
    proof
      assume "\<exists>x\<in>?D0. t = x + 10"
      then show "t - 10 \<in> ?D0" by auto
    next
      assume "t - 10 \<in> ?D0"
      then show "\<exists>x\<in>?D0. t = x + 10" by (intro bexI [of _ "t - 10"]) auto
    qed
    then have sup: "supported h 0 (get_reverse exact) = (\<lambda>t. t - 10 \<in> ?D0)"
      by (simp add: supported_chain)
    have rem: "(\<exists>t\<in>?D1. \<not> t - 10 \<in> ?D0) = (1 \<notin> ?D0)"
    proof
      assume "\<exists>t\<in>?D1. \<not> t - 10 \<in> ?D0"
      then obtain t where t: "t \<in> ?D1" "t - 10 \<notin> ?D0" by blast
      with s1 have "t = 11 \<or> t = 12 \<or> t = 13" by auto
      with t x(2) k3 show "1 \<notin> ?D0" by auto
    next
      assume "1 \<notin> ?D0"
      with x(1) show "\<exists>t\<in>?D1. \<not> t - 10 \<in> ?D0" by (intro bexI [of _ 11]) auto
    qed
    from ot oh sa have
      o1: "objs h1 (Suc 0) = filter (\<lambda>t. t - 10 \<in> ?D0) (objs h (Suc 0))"
      and o0: "objs h1 0 = objs h 0"
      and ar: "set arcs1 = (set arcs - {arc_exact_rev}) \<union>
                 (if 1 \<notin> ?D0 then {arc_loose, arc_exact} else {})"
      by (simp_all add: e arc_exact_rev_def sup rem)
    from o1 have sub: "set (objs h1 (Suc 0)) \<subseteq> ?D1" and dd: "distinct (objs h1 (Suc 0))"
      using d1 by auto
    from o1 x(1) have m11: "(11 \<in> set (objs h1 (Suc 0))) = (1 \<in> ?D0)" by auto
    from o1 k12 x(2) have m12: "12 \<in> set (objs h1 (Suc 0))" by auto
    from o1 k13 k3 have m13: "13 \<in> set (objs h1 (Suc 0))" by auto
    have ca1: "\<forall>a\<in>set arcs1. chain_arc a" using ca ar by (auto simp: chain_arc_def)
    have er: "arc_exact_rev \<notin> set arcs1"
      using ar chain_arcs_distinct(3,6) by auto
    have lo: "arc_loose \<in> set arcs1" if "1 \<in> ?D0 \<longrightarrow> arc_loose \<in> set arcs"
      using that ar chain_arcs_distinct(3) by (cases "1 \<in> ?D0") auto
    from x m11 er lo have
      "(11 \<in> set (objs h1 (Suc 0)) \<and> 2 \<in> ?D0 \<and> (1 \<in> ?D0 \<longrightarrow> arc_loose \<in> set arcs1)) \<or>
       (arc_exact_rev \<notin> set arcs1 \<and> 11 \<notin> set (objs h1 (Suc 0)) \<and> 1 \<notin> ?D0 \<and>
        (2 \<in> ?D0 \<longrightarrow> arc_loose \<in> set arcs1))"
      by blast
    with da ca1 dd d0 sub s0 s1 k3 m12 m13 o0 show ?thesis
      unfolding chain_inv_def by auto
  qed
  with st show ?thesis by blast
qed

text \<open>An Arc between two different domains of the list.\<close>

definition arc_ok :: "addr list \<Rightarrow> arc \<Rightarrow> bool" where
  "arc_ok doms a = (TAIL a < length doms \<and> HEAD a < length doms \<and> doms ! TAIL a \<noteq> doms ! HEAD a)"

lemma readd_set:
  "\<exists>arcs'. readd arcs t cs = Inr arcs' \<and>
     set arcs' \<subseteq> set arcs \<union> {b. \<exists>c\<in>set cs. 1 < arity c \<and> Arc_init c = Inr b}"
proof (induction cs arbitrary: arcs)
  case Nil
  then show ?case by simp
next
  case (Cons c cs)
  show ?case
  proof (cases "1 < arity c \<and> R_VAL c = VarIndex t")
    case False
    with Cons.IH [of arcs] show ?thesis by auto
  next
    case True
    then obtain l r q where c: "c = Binary l r q" by (cases c) auto
    let ?b = "\<lparr>CONSTRAINT = c, TAIL = l, HEAD = r\<rparr>"
    from c have ai: "Arc_init c = Inr ?b" by (simp add: Arc_init_def)
    from Cons.IH [of "arcs_add arcs ?b"] obtain arcs' where
      r: "readd (arcs_add arcs ?b) t cs = Inr arcs'"
      and s: "set arcs' \<subseteq> set (arcs_add arcs ?b) \<union>
                {b. \<exists>c\<in>set cs. 1 < arity c \<and> Arc_init c = Inr b}"
      by blast
    from True ai r have "readd arcs t (c # cs) = Inr arcs'" by simp
    moreover from s True ai have
      "set arcs' \<subseteq> set arcs \<union> {b. \<exists>c\<in>set (c # cs). 1 < arity c \<and> Arc_init c = Inr b}"
      by (auto simp: arcs_add_set)
    ultimately show ?thesis by blast
  qed
qed

lemma ac_loop_returns:
  assumes "\<forall>a\<in>set arcs. arc_ok doms a"
    and "\<forall>c\<in>set cs. \<forall>b. 1 < arity c \<longrightarrow> Arc_init c = Inr b \<longrightarrow> arc_ok doms b"
    and "\<forall>p\<in>set doms. distinct (objs h p)"
  shows "\<exists>h'. ac_loop sched h doms cs arcs = Inr h'"
  using assms
proof (induction sched h doms cs arcs rule: ac_loop.induct)
  case (1 sched h doms cs arcs)
  show ?case
  proof (cases "arcs = []")
    case True
    then show ?thesis by (simp add: ac_loop.simps)
  next
    case False
    let ?i = "pop_index sched arcs"
    let ?a = "arcs ! ?i"
    let ?rest = "take ?i arcs @ drop (Suc ?i) arcs"
    have i: "?i < length arcs"
      using False by (cases sched) (simp_all add: pop_index_def)
    then have "?a \<in> set arcs" by simp
    with "1.prems"(1) have ok: "arc_ok doms ?a" by blast
    then have tl: "doms ! TAIL ?a \<in> set doms" by (simp add: arc_ok_def)
    with "1.prems"(3) have dt: "distinct (objs h (doms ! TAIL ?a))" by blast
    from ok have ok3: "TAIL ?a < length doms" "HEAD ?a < length doms"
      "doms ! TAIL ?a \<noteq> doms ! HEAD ?a" by (simp_all add: arc_ok_def)
    from inconsistent_val_removal_filter [OF ok3 dt] obtain h1 removed where
      ivr: "inconsistent_val_removal h doms ?a = Inr (h1, removed)"
      and o: "objs h1 (doms ! TAIL ?a)
                = filter (supported h (doms ! HEAD ?a) (CONSTRAINT ?a)) (objs h (doms ! TAIL ?a))"
      and fr: "\<forall>q. q \<noteq> doms ! TAIL ?a \<longrightarrow> objs h1 q = objs h q"
      by blast
    have dist1: "\<forall>p\<in>set doms. distinct (objs h1 p)"
    proof
      fix p assume "p \<in> set doms"
      with "1.prems"(3) have "distinct (objs h p)" by blast
      with o fr dt show "distinct (objs h1 p)" by (cases "p = doms ! TAIL ?a") auto
    qed
    have rest: "set ?rest \<subseteq> set arcs"
      by (auto dest: in_set_takeD in_set_dropD)
    obtain arcs' where rd: "readd ?rest (TAIL ?a) cs = Inr arcs'"
      and rs: "set arcs' \<subseteq> set ?rest \<union> {b. \<exists>c\<in>set cs. 1 < arity c \<and> Arc_init c = Inr b}"
      using readd_set [of ?rest "TAIL ?a" cs] by blast
    define arcs1 where "arcs1 = (if removed then arcs' else ?rest)"
    from ivr rd have st: "ac_step sched h doms cs arcs = Inr (h1, arcs1)"
      by (simp add: ac_step_def Let_def arcs1_def)
    have ok1: "\<forall>a\<in>set arcs1. arc_ok doms a"
    proof
      fix b assume b: "b \<in> set arcs1"
      show "arc_ok doms b"
      proof (cases "b \<in> set ?rest")
        case True
        with rest "1.prems"(1) show ?thesis by blast
      next
        case False
        with b rs have "\<exists>c\<in>set cs. 1 < arity c \<and> Arc_init c = Inr b"
          by (auto simp: arcs1_def split: if_splits)
        with "1.prems"(2) show ?thesis by blast
      qed
    qed
    from "1.IH" [OF False st refl ok1 "1.prems"(2) dist1] obtain h' where
      "ac_loop (tl sched) h1 doms cs arcs1 = Inr h'" by blast
    with False st show ?thesis by (subst ac_loop.simps) simp
  qed
qed

lemma ac_loop_removes:
  assumes "arc_ok doms a" and "distinct (objs h0 (doms ! TAIL a))"
    and "\<exists>t\<in>set (objs h0 (doms ! TAIL a)). \<not> supported h0 (doms ! HEAD a) (CONSTRAINT a) t"
    and "ac_loop sched h doms cs arcs = Inr h'"
    and "(h = h0 \<and> a \<in> set arcs) \<or> doms_size h doms < doms_size h0 doms"
  shows "doms_size h' doms < doms_size h0 doms"
  using assms
proof (induction sched h doms cs arcs rule: ac_loop.induct)
  case (1 sched h doms cs arcs)
  show ?case
  proof (cases "arcs = []")
    case True
    with "1.prems"(4,5) show ?thesis by (simp add: ac_loop.simps)
  next
    case False
    with "1.prems"(4) obtain h1 arcs1 where st: "ac_step sched h doms cs arcs = Inr (h1, arcs1)"
      and rest: "ac_loop (tl sched) h1 doms cs arcs1 = Inr h'"
      by (subst (asm) ac_loop.simps) (auto split: sum.splits)
    let ?i = "pop_index sched arcs"
    let ?b = "arcs ! ?i"
    from st obtain removed where
      ivr: "inconsistent_val_removal h doms ?b = Inr (h1, removed)"
      and a1: "\<not> removed \<longrightarrow> arcs1 = take ?i arcs @ drop (Suc ?i) arcs"
      by (auto simp: ac_step_def Let_def split: sum.splits if_splits)
    note sz = inconsistent_val_removal_size [OF ivr]
    have "(h1 = h0 \<and> a \<in> set arcs1) \<or> doms_size h1 doms < doms_size h0 doms"
    proof (cases removed)
      case True
      with sz "1.prems"(5) show ?thesis by auto
    next
      case nr: False
      with sz have h1: "h1 = h" by simp
      show ?thesis
      proof (cases "h = h0 \<and> a \<in> set arcs")
        case f: False
        with "1.prems"(5) h1 show ?thesis by simp
      next
        case t: True
        have "?b \<noteq> a"
        proof
          assume "?b = a"
          with ivr t nr have "inconsistent_val_removal h0 doms a = Inr (h1, False)" by simp
          moreover from "1.prems"(1) have ok: "TAIL a < length doms" "HEAD a < length doms"
            "doms ! TAIL a \<noteq> doms ! HEAD a" by (simp_all add: arc_ok_def)
          from inconsistent_val_removal_filter [OF ok "1.prems"(2)]
          obtain h2 where "inconsistent_val_removal h0 doms a
            = Inr (h2, \<exists>t\<in>set (objs h0 (doms ! TAIL a)).
                         \<not> supported h0 (doms ! HEAD a) (CONSTRAINT a) t)"
            by blast
          with "1.prems"(3) have "inconsistent_val_removal h0 doms a = Inr (h2, True)" by simp
          ultimately show False by simp
        qed
        moreover have "set arcs \<subseteq> insert ?b (set (take ?i arcs @ drop (Suc ?i) arcs))"
        proof -
          have i: "?i < length arcs"
            using False by (cases sched) (simp_all add: pop_index_def)
          have "set arcs = set (take ?i arcs @ ?b # drop (Suc ?i) arcs)"
            using i by (simp add: id_take_nth_drop [symmetric])
          then show ?thesis by auto
        qed
        ultimately have "a \<in> set (take ?i arcs @ drop (Suc ?i) arcs)" using t by auto
        with a1 nr h1 t show ?thesis by simp
      qed
    qed
    from "1.IH" [OF False st refl "1.prems"(1,2,3) rest this] show ?thesis .
  qed
qed

lemma chain_inv_loop:
  "chain_inv h arcs \<Longrightarrow> doms = [0, 1] \<Longrightarrow> cs = [loose, exact] \<Longrightarrow>
     \<exists>h'. ac_loop sched h doms cs arcs = Inr h' \<and> chain_inv h' []"
proof (induction sched h doms cs arcs rule: ac_loop.induct)
  case (1 sched h doms cs arcs)
  show ?case
  proof (cases "arcs = []")
    case True
    with "1.prems"(1) show ?thesis by (simp add: ac_loop.simps)
  next
    case False
    from chain_inv_step [OF "1.prems"(1) False, of sched] "1.prems"(2,3) obtain h1 arcs1 where
      st: "ac_step sched h doms cs arcs = Inr (h1, arcs1)" and inv: "chain_inv h1 arcs1"
      by auto
    from "1.IH" [OF False st refl inv "1.prems"(2,3)] obtain h' where
      "ac_loop (tl sched) h1 doms cs arcs1 = Inr h'" "chain_inv h' []" by blast
    with False st show ?thesis by (subst ac_loop.simps) simp
  qed
qed

lemma chain_inv_init:
  "chain_inv (heap_of [[1, 2, 3], [11, 12, 13]])
     [arc_loose, arc_loose_rev, arc_exact, arc_exact_rev]"
  using chain_arcs_distinct
  by (simp add: chain_inv_def chain_arc_def heap_of_def empty_heap_def alloc_def)

lemma chain_final_unsupported:
  assumes "chain_inv h []"
  shows "\<exists>t\<in>set (objs h (Suc 0)). \<not> supported h 0 (get_reverse exact) t"
proof -
  from assms have s0: "set (objs h 0) \<subseteq> {1, 2, 3}" and k12: "12 \<in> set (objs h (Suc 0))"
    and xy: "(11 \<in> set (objs h (Suc 0)) \<and> 1 \<notin> set (objs h 0)) \<or> 2 \<notin> set (objs h 0)"
    by (auto simp: chain_inv_def)
  from xy show ?thesis
  proof
    assume a: "11 \<in> set (objs h (Suc 0)) \<and> 1 \<notin> set (objs h 0)"
    then have "\<not> supported h 0 (get_reverse exact) 11"
      by (auto simp: supported_chain)
    with a show ?thesis by blast
  next
    assume "2 \<notin> set (objs h 0)"
    then have "\<not> supported h 0 (get_reverse exact) 12"
      by (auto simp: supported_chain)
    with k12 show ?thesis by blast
  qed
qed

lemma chain_arcs_ok:
  "\<forall>a\<in>set [arc_loose, arc_loose_rev, arc_exact, arc_exact_rev]. arc_ok [0, 1] a"
  "\<forall>c\<in>set [loose, exact]. \<forall>b. 1 < arity c \<longrightarrow> Arc_init c = Inr b \<longrightarrow> arc_ok [0, 1] b"
  by (auto simp: arc_ok_def chain_arcs loose_def exact_def Arc_init_def)

section \<open>Completeness when no value is rejected twice\<close>

text \<open>
  A solution is a full assignment that every constraint accepts. A partial assignment
  agrees with it when each filled slot holds the solution's value. The search, started on
  an assignment that agrees with a solution whose values are all in the domains, returns
  a full assignment: in the loop over the values of a meeting, the solution's own value
  is reached unless an earlier value has already led to a result.\<close>

definition agrees :: "datetime option list \<Rightarrow> datetime list \<Rightarrow> bool" where
  "agrees a sol = (length a = length sol \<and> (\<forall>i<length a. a ! i = None \<or> a ! i = Some (sol ! i)))"

definition solution :: "constraint list \<Rightarrow> datetime list \<Rightarrow> bool" where
  "solution cs sol = (\<forall>c\<in>set cs. is_satisfied_by_assignment c (map Some sol) = Inr True)"

lemma solution_in_range: "solution cs sol \<Longrightarrow> \<forall>c\<in>set cs. in_range c (length sol)"
proof
  fix c assume s: "solution cs sol" and c: "c \<in> set cs"
  then have "is_satisfied_by_assignment c (map Some sol) = Inr True" by (simp add: solution_def)
  then show "in_range c (length sol)" by (cases c) (auto split: if_splits)
qed

lemma agrees_satisfied:
  assumes "is_satisfied_by_assignment c (map Some sol) = Inr True" and "agrees a sol"
  shows "is_satisfied_by_assignment c a = Inr True"
proof (cases c)
  case (Unary l p)
  with assms(1) have l: "l < length sol" and p: "p (sol ! l)" by (auto split: if_splits)
  from assms(2) l have "a ! l = None \<or> a ! l = Some (sol ! l)" and "length a = length sol"
    by (simp_all add: agrees_def)
  with Unary l p show ?thesis by auto
next
  case (Binary l r q)
  with assms(1) have l: "l < length sol" and r: "r < length sol" and q: "q (sol ! l) (sol ! r)"
    by (auto split: if_splits)
  from assms(2) l r have "a ! l = None \<or> a ! l = Some (sol ! l)"
    "a ! r = None \<or> a ! r = Some (sol ! r)" and "length a = length sol"
    by (simp_all add: agrees_def)
  with Binary l r q show ?thesis by auto
qed

lemma agrees_check:
  "solution cs sol \<Longrightarrow> agrees a sol \<Longrightarrow> check_constraints cs a = Inr True"
proof (induction cs)
  case Nil
  then show ?case by simp
next
  case (Cons c cs)
  from Cons.prems have "is_satisfied_by_assignment c a = Inr True"
    using agrees_satisfied [of c sol a] by (simp add: solution_def)
  moreover from Cons have "check_constraints cs a = Inr True" by (simp add: solution_def)
  ultimately show ?case by simp
qed

lemma agrees_update:
  "agrees (b[v := None]) sol \<Longrightarrow> v < length b \<Longrightarrow> agrees (b[v := Some (sol ! v)]) sol"
  unfolding agrees_def
  by (metis length_list_update nth_list_update_eq nth_list_update_neq)

lemma search_returns:
  "\<forall>c\<in>set cs. in_range c (length a) \<Longrightarrow> length doms = length a \<Longrightarrow>
     \<exists>a2 r. recursive_csp_backtracker a vars doms cs = Inr (a2, r)"
  "\<forall>c\<in>set cs'. in_range c (length b) \<Longrightarrow> length doms' = length b \<Longrightarrow> v < length b \<Longrightarrow>
     \<exists>b2 r. try_values b vars' doms' cs' v ds = Inr (b2, r)"
proof (induct a vars doms cs and b vars' doms' cs' v ds
       rule: recursive_csp_backtracker_try_values.induct)
  case (1 a vars doms cs)
  show ?case
  proof (cases "first_unassigned a")
    case None
    then show ?thesis by (simp add: recursive_csp_backtracker.simps)
  next
    case (Some w)
    note fu = first_unassigned_Some [OF Some]
    from fu "1.prems"(2) have inr: "\<not> length doms \<le> w" by simp
    from "1.hyps" [OF Some inr "1.prems"] fu Some inr show ?thesis
      by (simp add: recursive_csp_backtracker.simps)
  qed
next
  case (2 a vars doms cs current_var)
  then show ?case by simp
next
  case (3 a vars doms cs current_var d ds)
  let ?a1 = "a[current_var := Some d]"
  from "3.prems"(3) have len: "\<not> length a \<le> current_var" by simp
  from "3.prems"(1) obtain ok where ck: "check_constraints cs ?a1 = Inr ok"
    using check_constraints_in_range [of cs ?a1] by auto
  show ?case
  proof (cases ok)
    case False
    from "3.hyps"(1) [OF len ck False] "3.prems" obtain b2 r where
      "try_values (a[current_var := Some d, current_var := None, current_var := None])
         vars doms cs current_var ds = Inr (b2, r)" by auto
    with len ck False show ?thesis by simp
  next
    case True
    then have nn: "\<not> \<not> ok" by simp
    from "3.hyps"(2) [OF len ck nn] "3.prems" obtain a3 y where
      rc: "recursive_csp_backtracker ?a1 vars doms cs = Inr (a3, y)" by auto
    show ?thesis
    proof (cases "truthy y")
      case t: True
      with len ck True rc show ?thesis by simp
    next
      case f: False
      from backtracker_restores [OF rc f] have a3: "a3 = ?a1" .
      from "3.hyps"(3) [OF len ck nn rc refl f] "3.prems" a3 obtain b2 r where
        "try_values (a3[current_var := None]) vars doms cs current_var ds = Inr (b2, r)"
        by auto
      with len ck True rc f show ?thesis by simp
    qed
  qed
qed

lemma search_complete:
  "solution cs sol \<Longrightarrow> agrees a sol \<Longrightarrow> length doms = length sol \<Longrightarrow>
     \<forall>i<length sol. sol ! i \<in> set (doms ! i) \<Longrightarrow>
     \<exists>r. recursive_csp_backtracker a vars doms cs = Inr (r, Some r)"
  "solution cs' sol \<Longrightarrow> agrees (b[v := None]) sol \<Longrightarrow> length doms' = length sol \<Longrightarrow>
     \<forall>i<length sol. sol ! i \<in> set (doms' ! i) \<Longrightarrow> v < length b \<Longrightarrow> sol ! v \<in> set ds \<Longrightarrow>
     \<exists>r. try_values b vars' doms' cs' v ds = Inr (r, Some r)"
proof (induct a vars doms cs and b vars' doms' cs' v ds
       rule: recursive_csp_backtracker_try_values.induct)
  case (1 a vars doms cs)
  show ?case
  proof (cases "first_unassigned a")
    case None
    then show ?thesis by (simp add: recursive_csp_backtracker.simps)
  next
    case (Some w)
    note fu = first_unassigned_Some [OF Some]
    from "1.prems"(2) have la: "length a = length sol" by (simp add: agrees_def)
    with fu "1.prems"(3) have inr: "\<not> length doms \<le> w" by simp
    from fu have upd: "a[w := None] = a" by (metis list_update_id)
    from fu la "1.prems"(4) have mem: "sol ! w \<in> set (doms ! w)" by simp
    from fu have w: "w < length a" by simp
    from "1.hyps" [OF Some inr "1.prems"(1) _ "1.prems"(3,4) w mem] upd "1.prems"(2)
    obtain r where "try_values a vars doms cs w (doms ! w) = Inr (r, Some r)" by auto
    with Some inr show ?thesis by (simp add: recursive_csp_backtracker.simps)
  qed
next
  case (2 a vars doms cs current_var)
  then show ?case by simp
next
  case (3 a vars doms cs current_var d ds)
  let ?a1 = "a[current_var := Some d]"
  let ?a0 = "a[current_var := None]"
  from "3.prems"(5) have len: "\<not> length a \<le> current_var" by simp
  from "3.prems"(2) have la: "length a = length sol" by (simp add: agrees_def)
  have rng: "\<forall>c\<in>set cs. in_range c (length ?a1)"
    using solution_in_range [OF "3.prems"(1)] la by simp
  then obtain ok where ck: "check_constraints cs ?a1 = Inr ok"
    using check_constraints_in_range [of cs ?a1] by auto
  have ag0: "agrees (?a0[current_var := None]) sol" using "3.prems"(2) by simp
  have ag1: "agrees ?a1 sol" if "d = sol ! current_var"
    using agrees_update [OF "3.prems"(2,5)] that by simp
  show ?case
  proof (cases ok)
    case False
    have "d \<noteq> sol ! current_var"
    proof
      assume "d = sol ! current_var"
      from agrees_check [OF "3.prems"(1) ag1 [OF this]] ck False show False by simp
    qed
    with "3.prems"(6) have mem: "sol ! current_var \<in> set ds" by auto
    have eq: "a[current_var := Some d, current_var := None, current_var := None] = ?a0" by simp
    from "3.hyps"(1) [OF len ck False, unfolded eq, OF "3.prems"(1) ag0 "3.prems"(3,4) _ mem]
      "3.prems"(5)
    obtain r where "try_values ?a0 vars doms cs current_var ds = Inr (r, Some r)" by auto
    with len ck False show ?thesis by simp
  next
    case True
    then have nn: "\<not> \<not> ok" by simp
    from search_returns(1) [OF rng, of doms vars] "3.prems"(3) la obtain a3 y where
      rc: "recursive_csp_backtracker ?a1 vars doms cs = Inr (a3, y)" by auto
    show ?thesis
    proof (cases "truthy y")
      case t: True
      then obtain r where y: "y = Some r" by (cases y) auto
      from search_sound(1) [OF rc [unfolded y]] have "r = a3" by simp
      with len ck True rc t y show ?thesis by simp
    next
      case f: False
      from backtracker_restores [OF rc f] have a3: "a3 = ?a1" .
      have "d \<noteq> sol ! current_var"
      proof
        assume "d = sol ! current_var"
        from "3.hyps"(2) [OF len ck nn "3.prems"(1) ag1 [OF this] "3.prems"(3,4)]
        obtain r where r: "recursive_csp_backtracker ?a1 vars doms cs = Inr (r, Some r)"
          by blast
        with rc have y: "y = Some r" by auto
        from search_sound(1) [OF r] have "length r = length ?a1" by simp
        with len have "r \<noteq> []" by auto
        with y f show False by simp
      qed
      with "3.prems"(6) have mem: "sol ! current_var \<in> set ds" by auto
      have eq: "a3[current_var := None] = ?a0" using a3 by simp
      from "3.hyps"(3) [OF len ck nn rc refl f, unfolded eq,
          OF "3.prems"(1) ag0 "3.prems"(3,4) _ mem] "3.prems"(5)
      obtain r where "try_values ?a0 vars doms cs current_var ds = Inr (r, Some r)" by auto
      with len ck True rc f eq show ?thesis by simp
    qed
  qed
qed

text \<open>
  A revision keeps the tail value of a solution: its support is the solution's value of
  the head. For an arc from a meeting to itself the support is the value itself, which
  is removed only if it has no support.\<close>

lemma revise_loop_keeps:
  assumes "distinct ts" and "set ts \<subseteq> set (objs h tp)" and "s \<in> set (objs h tp)"
    and "w \<in> set (objs h hp)" and "is_satisfied_by_values c s (Some w)"
    and "tp = hp \<longrightarrow> w = s"
  shows "\<exists>h' r. revise_loop h tp hp c ts removed = Inr (h', r) \<and> s \<in> set (objs h' tp) \<and>
           same_but h h' tp \<and> (distinct (objs h tp) \<longrightarrow> distinct (objs h' tp))"
  using assms
proof (induction ts arbitrary: h removed)
  case Nil
  then show ?case by (simp add: same_but_def)
next
  case (Cons t ts)
  show ?case
  proof (cases "list_ex (\<lambda>hd. is_satisfied_by_values c t (Some hd)) (objs h hp)")
    case True
    from Cons.prems have "distinct ts" "set ts \<subseteq> set (objs h tp)" by simp_all
    from Cons.IH [OF this Cons.prems(3-6), of removed] True show ?thesis by simp
  next
    case False
    with Cons.prems(4,5) have ts: "t \<noteq> s" by (auto simp: list_ex_iff)
    let ?h1 = "h\<lparr>objs := (objs h)(tp := removeAll t (objs h tp))\<rparr>"
    from Cons.prems(2) have rm: "set_remove h tp t = Inr ?h1" by (simp add: set_remove_def)
    from Cons.prems(1,2) have a1: "distinct ts" "set ts \<subseteq> set (objs ?h1 tp)" by auto
    from Cons.prems(3) ts have a3: "s \<in> set (objs ?h1 tp)" by simp
    from Cons.prems(4,6) a3 have a4: "w \<in> set (objs ?h1 hp)" by (cases "tp = hp") auto
    from Cons.IH [OF a1 a3 a4 Cons.prems(5,6), of True] obtain h' r where
      r: "revise_loop ?h1 tp hp c ts True = Inr (h', r)" and k: "s \<in> set (objs h' tp)"
      and sb: "same_but ?h1 h' tp"
      and d: "distinct (objs ?h1 tp) \<longrightarrow> distinct (objs h' tp)"
      by blast
    from False rm r have "revise_loop h tp hp c (t # ts) removed = Inr (h', r)" by simp
    moreover from sb have "same_but h h' tp" by (simp add: same_but_def)
    moreover from d have "distinct (objs h tp) \<longrightarrow> distinct (objs h' tp)"
      by (simp add: distinct_removeAll)
    ultimately show ?thesis using k by blast
  qed
qed

definition kept :: "heap \<Rightarrow> addr list \<Rightarrow> datetime list \<Rightarrow> bool" where
  "kept h doms sol =
     (\<forall>i<length sol. sol ! i \<in> set (objs h (doms ! i)) \<and> distinct (objs h (doms ! i)))"

definition good_arc :: "datetime list \<Rightarrow> arc \<Rightarrow> bool" where
  "good_arc sol a =
     (TAIL a < length sol \<and> HEAD a < length sol \<and>
      is_satisfied_by_values (CONSTRAINT a) (sol ! TAIL a) (Some (sol ! HEAD a)))"

lemma inconsistent_val_removal_keeps:
  assumes "distinct doms" and "length doms = length sol" and "kept h doms sol"
    and "good_arc sol a"
  shows "\<exists>h' r. inconsistent_val_removal h doms a = Inr (h', r) \<and> kept h' doms sol"
proof -
  let ?tp = "doms ! TAIL a" and ?hp = "doms ! HEAD a"
  from assms(4) have t: "TAIL a < length sol" and hd: "HEAD a < length sol"
    and sat: "is_satisfied_by_values (CONSTRAINT a) (sol ! TAIL a) (Some (sol ! HEAD a))"
    by (simp_all add: good_arc_def)
  from assms(3) t hd have s: "sol ! TAIL a \<in> set (objs h ?tp)" and dt: "distinct (objs h ?tp)"
    and w: "sol ! HEAD a \<in> set (objs h ?hp)" by (simp_all add: kept_def)
  have same: "?tp = ?hp \<longrightarrow> sol ! HEAD a = sol ! TAIL a"
    using assms(1,2) t hd by (auto simp: nth_eq_iff_index_eq)
  from revise_loop_keeps [OF dt subset_refl s w sat same, of False] obtain h' r where
    r: "revise_loop h ?tp ?hp (CONSTRAINT a) (objs h ?tp) False = Inr (h', r)"
    and k: "sol ! TAIL a \<in> set (objs h' ?tp)" and sb: "same_but h h' ?tp"
    and d: "distinct (objs h' ?tp)" using dt by blast
  from r t hd assms(2) have "inconsistent_val_removal h doms a = Inr (h', r)"
    by (simp add: inconsistent_val_removal_def)
  moreover have "kept h' doms sol"
    unfolding kept_def
  proof (intro allI impI)
    fix i assume i: "i < length sol"
    show "sol ! i \<in> set (objs h' (doms ! i)) \<and> distinct (objs h' (doms ! i))"
    proof (cases "doms ! i = ?tp")
      case True
      with assms(1,2) i t have "i = TAIL a" by (simp add: nth_eq_iff_index_eq)
      with k d show ?thesis by simp
    next
      case False
      with sb have "objs h' (doms ! i) = objs h (doms ! i)" by (simp add: same_but_def)
      with assms(3) i show ?thesis by (simp add: kept_def)
    qed
  qed
  ultimately show ?thesis by blast
qed

lemma solution_arcs:
  assumes "solution cs sol" and "c \<in> set cs" and "1 < arity c"
  shows "\<exists>a b. Arc_init c = Inr a \<and> Arc_init (get_reverse c) = Inr b \<and>
           good_arc sol a \<and> good_arc sol b"
proof -
  from assms(3) obtain l r q where c: "c = Binary l r q" by (cases c) auto
  from assms(1,2) have "is_satisfied_by_assignment c (map Some sol) = Inr True"
    by (simp add: solution_def)
  with c have "l < length sol" "r < length sol" "q (sol ! l) (sol ! r)"
    by (auto split: if_splits)
  with c show ?thesis by (simp add: Arc_init_def good_arc_def)
qed

lemma init_arcs_good:
  assumes "solution cs sol"
  shows "set cs' \<subseteq> set cs \<Longrightarrow> \<forall>a\<in>set arcs. good_arc sol a \<Longrightarrow>
           \<exists>arcs'. init_arcs arcs cs' = Inr arcs' \<and> (\<forall>a\<in>set arcs'. good_arc sol a)"
proof (induction cs' arbitrary: arcs)
  case Nil
  then show ?case by simp
next
  case (Cons c cs')
  show ?case
  proof (cases "1 < arity c")
    case False
    with Cons show ?thesis by simp
  next
    case True
    from Cons.prems(1) have "c \<in> set cs" by simp
    from solution_arcs [OF assms this True] obtain a b where
      ab: "Arc_init c = Inr a" "Arc_init (get_reverse c) = Inr b" "good_arc sol a" "good_arc sol b"
      by blast
    with Cons.prems(2) have "\<forall>x\<in>set (arcs_add (arcs_add arcs a) b). good_arc sol x"
      by (auto simp: arcs_add_set)
    with Cons.IH [of "arcs_add (arcs_add arcs a) b"] Cons.prems(1) obtain arcs' where
      "init_arcs (arcs_add (arcs_add arcs a) b) cs' = Inr arcs'" "\<forall>a\<in>set arcs'. good_arc sol a"
      by auto
    with True ab show ?thesis by simp
  qed
qed

lemma ac_loop_keeps:
  assumes "distinct doms" and "length doms = length sol" and "solution cs sol"
    and "kept h doms sol" and "\<forall>a\<in>set arcs. good_arc sol a"
  shows "\<exists>h'. ac_loop sched h doms cs arcs = Inr h' \<and> kept h' doms sol"
  using assms
proof (induction sched h doms cs arcs rule: ac_loop.induct)
  case (1 sched h doms cs arcs)
  show ?case
  proof (cases "arcs = []")
    case True
    with "1.prems"(4) show ?thesis by (simp add: ac_loop.simps)
  next
    case False
    let ?i = "pop_index sched arcs"
    let ?a = "arcs ! ?i"
    let ?rest = "take ?i arcs @ drop (Suc ?i) arcs"
    have i: "?i < length arcs"
      using False by (cases sched) (simp_all add: pop_index_def)
    then have "?a \<in> set arcs" by simp
    with "1.prems"(5) have ga: "good_arc sol ?a" by blast
    from inconsistent_val_removal_keeps [OF "1.prems"(1,2,4) ga] obtain h1 removed where
      ivr: "inconsistent_val_removal h doms ?a = Inr (h1, removed)"
      and k1: "kept h1 doms sol" by blast
    have rest: "set ?rest \<subseteq> set arcs"
      by (auto dest: in_set_takeD in_set_dropD)
    obtain arcs' where rd: "readd ?rest (TAIL ?a) cs = Inr arcs'"
      and rs: "set arcs' \<subseteq> set ?rest \<union> {b. \<exists>c\<in>set cs. 1 < arity c \<and> Arc_init c = Inr b}"
      using readd_set [of ?rest "TAIL ?a" cs] by blast
    define arcs1 where "arcs1 = (if removed then arcs' else ?rest)"
    from ivr rd have st: "ac_step sched h doms cs arcs = Inr (h1, arcs1)"
      by (simp add: ac_step_def Let_def arcs1_def)
    have g1: "\<forall>a\<in>set arcs1. good_arc sol a"
    proof
      fix b assume b: "b \<in> set arcs1"
      show "good_arc sol b"
      proof (cases "b \<in> set ?rest")
        case True
        with rest "1.prems"(5) show ?thesis by blast
      next
        case False
        with b rs obtain c where c: "c \<in> set cs" "1 < arity c" "Arc_init c = Inr b"
          by (auto simp: arcs1_def split: if_splits)
        from solution_arcs [OF "1.prems"(3) c(1,2)] c(3) show ?thesis by auto
      qed
    qed
    from "1.IH" [OF False st refl "1.prems"(1,2,3) k1 g1] obtain h' where
      "ac_loop (tl sched) h1 doms cs arcs1 = Inr h'" "kept h' doms sol" by blast
    with False st show ?thesis by (subst ac_loop.simps) simp
  qed
qed

text \<open>
  The whole solver on one shared candidate set: when a solution exists among the
  candidates and no candidate is rejected by two unary constraints of one meeting (the
  case in which \<open>node_consistency\<close> raises), \<open>solve\<close> returns a full assignment
  that every constraint accepts, in every order of the worklist.\<close>

lemma solution_not_rejected:
  assumes "solution cs sol" and "j < length sol"
  shows "rejections cs j (sol ! j) = 0"
proof -
  have "\<not> rejects c j (sol ! j)" if c: "c \<in> set cs" for c
  proof (cases c)
    case (Unary l q)
    from assms(1) c have "is_satisfied_by_assignment c (map Some sol) = Inr True"
      by (simp add: solution_def)
    with Unary assms(2) show ?thesis by (auto simp: rejects_def split: if_splits)
  next
    case (Binary l r q)
    then show ?thesis by (simp add: rejects_def)
  qed
  then show ?thesis by (simp add: rejections_def filter_empty_conv)
qed

lemma solve_complete:
  assumes "p < nxt h" and "distinct (objs h p)"
    and "length sol = nat n" and "set sol \<subseteq> set (objs h p)" and "solution cs sol"
    and "\<forall>j<nat n. \<forall>d\<in>set (objs h p). rejections cs j d \<le> 1"
  shows "\<exists>h' a. solve sched h n (SetRef p) cs = Inr (h', Some a) \<and> length a = nat n \<and>
           None \<notin> set a \<and> (\<forall>c\<in>set cs. is_satisfied_by_assignment c a = Inr True)"
proof -
  let ?ps = "replicate (nat n) p"
  let ?doms = "fresh_refs (nxt h) (nat n)"
  have a: "\<forall>q\<in>set ?ps. q < nxt h \<and> distinct (objs h q)" using assms(1,2) by simp
  have c: "\<forall>j<length ?ps. \<forall>d\<in>set (objs h (?ps ! j)). rejections cs j d \<le> 1"
    using assms(6) by simp
  from node_consistency_result [OF a, of cs] c have
    "\<exists>h1. node_consistency h (map SetRef ?ps) cs = Inr (h1, fresh_refs (nxt h) (length ?ps)) \<and>
       nxt h1 = nxt h + length ?ps \<and> (\<forall>q<nxt h. objs h1 q = objs h q) \<and>
       (\<forall>j<length ?ps. objs h1 (nxt h + j)
                         = filter (\<lambda>d. rejections cs j d = 0) (objs h (?ps ! j)))"
    by (simp only: if_True)
  then obtain h1 where
    nc: "node_consistency h (map SetRef ?ps) cs = Inr (h1, fresh_refs (nxt h) (length ?ps))"
    and f: "\<forall>j<length ?ps. objs h1 (nxt h + j)
               = filter (\<lambda>d. rejections cs j d = 0) (objs h (?ps ! j))"
    by blast
  from nc have nc': "node_consistency h (replicate (nat n) (SetRef p)) cs = Inr (h1, ?doms)"
    by simp
  have d: "distinct ?doms" by (simp add: fresh_refs_def)
  have l: "length ?doms = length sol" using assms(3) by (simp add: fresh_refs_nth)
  have k: "kept h1 ?doms sol"
    unfolding kept_def
  proof (intro allI impI)
    fix i assume i: "i < length sol"
    with assms(3) have i': "i < nat n" by simp
    with f have o: "objs h1 (nxt h + i) = filter (\<lambda>d. rejections cs i d = 0) (objs h p)"
      by simp
    from i assms(4) have "sol ! i \<in> set (objs h p)" by auto
    with solution_not_rejected [OF assms(5) i] o assms(2) i'
    show "sol ! i \<in> set (objs h1 (?doms ! i)) \<and> distinct (objs h1 (?doms ! i))"
      by (simp add: fresh_refs_nth)
  qed
  from init_arcs_good [OF assms(5) subset_refl, of "[]"] obtain arcs where
    ia: "init_arcs [] cs = Inr arcs" and g: "\<forall>a\<in>set arcs. good_arc sol a" by auto
  from ac_loop_keeps [OF d l assms(5) k g, of sched] obtain h2 where
    ac: "ac_loop sched h1 ?doms cs arcs = Inr h2" and k2: "kept h2 ?doms sol" by blast
  from ia ac have ac': "arc_consistency sched h1 ?doms cs = Inr h2"
    by (simp add: arc_consistency_def)
  let ?a = "replicate (nat n) (None :: datetime option)"
  have ag: "agrees ?a sol" using assms(3) by (simp add: agrees_def)
  have l2: "length (map (objs h2) ?doms) = length sol" using l by simp
  have m: "\<forall>i<length sol. sol ! i \<in> set (map (objs h2) ?doms ! i)"
    using k2 l by (simp add: kept_def)
  from search_complete(1) [OF assms(5) ag l2 m, of "nat n"] obtain r where
    r: "recursive_csp_backtracker ?a (nat n) (map (objs h2) ?doms) cs = Inr (r, Some r)"
    by blast
  from nc' ac' r have s: "solve sched h n (SetRef p) cs = Inr (h2, Some r)"
    by (simp add: solve_def csp_backtracker_def)
  from search_sound(1) [OF r] have len: "length r = nat n" and fu: "first_unassigned r = None"
    and ch: "first_unassigned ?a \<noteq> None \<longrightarrow> check_constraints cs r = Inr True" by simp_all
  from first_unassigned_None [OF fu] have nn: "None \<notin> set r" by blast
  have sat: "\<forall>c\<in>set cs. is_satisfied_by_assignment c r = Inr True"
  proof (cases "0 < nat n")
    case True
    with ch have "check_constraints cs r = Inr True" by (simp add: first_unassigned_replicate)
    then show ?thesis by (rule check_constraints_True)
  next
    case False
    with assms(3) have "sol = []" by simp
    with solution_in_range [OF assms(5)] have "\<forall>c\<in>set cs. in_range c 0" by simp
    moreover have "\<not> in_range c 0" for c by (cases c) simp_all
    ultimately show ?thesis by blast
  qed
  from s len nn sat show ?thesis by blast
qed

text \<open>
  An instance: two meetings on the candidates 1, 2, 3, the first before the second and
  before day 3.\<close>

lemma solve_complete_example:
  "\<exists>h' a. solve sched (heap_of [[1, 2, 3]]) 2 (SetRef 0) [Binary 0 1 (<), Unary 0 (\<lambda>d. d < 3)]
             = Inr (h', Some a) \<and> length a = 2 \<and> None \<notin> set a \<and>
           is_satisfied_by_assignment (Binary 0 1 (<)) a = Inr True \<and>
           is_satisfied_by_assignment (Unary 0 (\<lambda>d. d < 3)) a = Inr True"
proof -
  let ?h = "heap_of [[1, 2, 3]]" and ?cs = "[Binary 0 1 (<), Unary 0 (\<lambda>d. d < 3)]"
  have o: "objs ?h 0 = [1, 2, 3]" "nxt ?h = 1"
    by (simp_all add: heap_of_def empty_heap_def alloc_def)
  have 1: "0 < nxt ?h" "distinct (objs ?h 0)" by (simp_all add: o)
  have 2: "length [1, 2 :: datetime] = nat 2" "set [1, 2 :: datetime] \<subseteq> set (objs ?h 0)"
    by (simp_all add: o)
  have 3: "solution ?cs [1, 2]" by (simp add: solution_def)
  have 4: "\<forall>j<nat 2. \<forall>d\<in>set (objs ?h 0). rejections ?cs j d \<le> 1"
    by (simp add: o rejections_simps rejects_def)
  from solve_complete [OF 1 2 3 4, of sched] show ?thesis by simp
qed

section \<open>Properties\<close>

text \<open>
  C1: for every \<open>n\<close>, every form of \<open>date_range\<close> and every constraint collection, an
  assignment that \<open>solve\<close> returns has \<open>n\<close> slots, all of them filled, and
  \<open>is_satisfied_by_assignment\<close> of every constraint yields true on it. The meeting count
  is positive, as the entry point asks, or else the constraints are about meetings of the
  problem, as everywhere; nothing more is assumed, and with a positive count nothing is
  assumed of the constraints.
\<close>

theorem solve_sound:
  assumes "0 < n \<or> (\<forall>c\<in>set cs. in_range c (nat n))"
    and "solve sched h n date_range cs = Inr (h', Some a)"
  shows "length a = nat n \<and> (\<forall>x\<in>set a. x \<noteq> None) \<and>
         (\<forall>c\<in>set cs. is_satisfied_by_assignment c a = Inr True)"
proof -
  from assms(2) obtain doms and h2 :: heap and a2 where
    rc: "recursive_csp_backtracker (replicate (nat n) None) (nat n) (map (objs h2) doms) cs
           = Inr (a2, Some a)"
    by (auto simp: solve_def csp_backtracker_def split: sum.splits)
  note ss = search_sound(1) [OF rc]
  from ss have len: "length a = nat n" by auto
  from ss have fu: "first_unassigned a = None" by blast
  from ss have ch: "first_unassigned (replicate (nat n) None) \<noteq> None
                      \<longrightarrow> check_constraints cs a = Inr True"
    by blast
  from first_unassigned_None [OF fu] have filled: "\<forall>x\<in>set a. x \<noteq> None" .
  have "\<forall>c\<in>set cs. is_satisfied_by_assignment c a = Inr True"
  proof (cases "0 < n")
    case True
    then have "first_unassigned (replicate (nat n) (None :: datetime option)) \<noteq> None"
      by (simp add: first_unassigned_replicate)
    with ch have "check_constraints cs a = Inr True" by simp
    then show ?thesis by (rule check_constraints_True)
  next
    case False
    with assms(1) have "\<forall>c\<in>set cs. in_range c 0" by auto
    moreover have "\<not> in_range c 0" for c by (cases c) simp_all
    ultimately show ?thesis by blast
  qed
  with len filled show ?thesis by blast
qed

text \<open>Two meetings on the days 1 and 2, meeting 0 after day 1 and meeting 1 before
  meeting 0: the schedule returned is day 2, day 1.\<close>

theorem solve_sound_witness:
  "(0::int) < 2 \<and>
   solve [] (heap_of [[1, 2]]) 2 (SetRef 0) [Unary 0 ((<) 1), Binary 1 0 (<)]
     = Inr (heap_of [[1, 2], [2], [1]], Some [Some 2, Some 1]) \<and>
   length [Some (2::int), Some 1] = nat 2 \<and>
   None \<notin> set [Some (2::int), Some 1] \<and>
   is_satisfied_by_assignment (Unary 0 ((<) 1)) [Some 2, Some 1] = Inr True \<and>
   is_satisfied_by_assignment (Binary 1 0 (<)) [Some 2, Some 1] = Inr True"
proof -
  have pos: "(0::int) < 2" by simp
  have run: "solve [] (heap_of [[1, 2]]) 2 (SetRef 0) [Unary 0 ((<) 1), Binary 1 0 (<)]
               = Inr (heap_of [[1, 2], [2], [1]], Some [Some 2, Some 1])"
    by (simp add: run_simps numeral_2_eq_2)
  from solve_sound [OF disjI1 [OF pos] run] pos run show ?thesis by auto
qed

text \<open>
  C2, the failing input: one meeting, the candidate days 1 and 5, and two unary
  constraints, "not day 1" and "after day 3". The schedule day 5 satisfies both, yet
  \<open>solve\<close> raises \<open>KeyError\<close>: both constraints reject day 1, and \<open>node_consistency\<close>
  removes it from the copy of the domain twice.
\<close>

theorem solve_incomplete_on_double_rejection:
  "5 \<in> set (objs (heap_of [[1, 5]]) 0) \<and>
   is_satisfied_by_assignment (Unary 0 ((\<noteq>) 1)) [Some 5] = Inr True \<and>
   is_satisfied_by_assignment (Unary 0 ((<) 3)) [Some 5] = Inr True \<and>
   solve sched (heap_of [[1, 5]]) 1 (SetRef 0) [Unary 0 ((\<noteq>) 1), Unary 0 ((<) 3)]
     = Inl KeyError"
  by (simp add: run_simps)

text \<open>
  C3, the failing input: two meetings with their own candidate sets, day 1 for meeting 0
  and day 2 for meeting 1, and no constraint. Every slot of \<open>doms\<close> holds the list of the
  two sets, and \<open>set(dom)\<close> in \<open>node_consistency\<close> raises \<open>TypeError\<close>.
\<close>

theorem solve_list_of_sets_raises:
  "solve sched (heap_of [[1], [2]]) 2 (SetList [0, 1]) [] = Inl TypeError"
  by (simp add: run_simps numeral_2_eq_2)

text \<open>
  C4, the failing input: one domain holding day 3 and two unary constraints on meeting
  0, "after day 5" and "not day 3", which both reject day 3. \<open>node_consistency\<close> raises
  \<open>KeyError\<close> at the second \<open>remove\<close>.
\<close>

theorem node_consistency_double_rejection_raises:
  "node_consistency (heap_of [[3]]) [SetRef 0] [Unary 0 ((<) 5), Unary 0 ((\<noteq>) 3)]
     = Inl KeyError"
  by (simp add: run_simps)

text \<open>
  C5, the failing input: the domains days 1, 2, 3 of meeting 0 and days 11, 12, 13 of
  meeting 1 under the constraints \<open>loose\<close> and \<open>exact\<close>. The worklist is seeded with the
  Arc of each constraint and the Arc of its reverse. A first pass pops the Arc of the
  reverse of \<open>exact\<close> (tail 1, head 0) and removes nothing. The next pass pops the Arc of
  \<open>loose\<close> (tail 0, head 1) and removes day 1 from the domain of meeting 0. The Arc of
  the reverse of \<open>exact\<close> points into meeting 0 and has lost the support of day 11, but
  it is not put back: the loop looks at the constraints as given, none of which has
  \<open>R_VAL\<close> 0, and never at their reverses.
\<close>

theorem readd_misses_reverse_arc:
  "init_arcs [] [loose, exact] =
     Inr [\<lparr>CONSTRAINT = loose, TAIL = 0, HEAD = 1\<rparr>,
          \<lparr>CONSTRAINT = get_reverse loose, TAIL = 1, HEAD = 0\<rparr>,
          \<lparr>CONSTRAINT = exact, TAIL = 0, HEAD = 1\<rparr>,
          \<lparr>CONSTRAINT = get_reverse exact, TAIL = 1, HEAD = 0\<rparr>] \<and>
   ac_step [3, 0] (heap_of [[1, 2, 3], [11, 12, 13]]) [0, 1] [loose, exact]
       [\<lparr>CONSTRAINT = loose, TAIL = 0, HEAD = 1\<rparr>,
        \<lparr>CONSTRAINT = get_reverse loose, TAIL = 1, HEAD = 0\<rparr>,
        \<lparr>CONSTRAINT = exact, TAIL = 0, HEAD = 1\<rparr>,
        \<lparr>CONSTRAINT = get_reverse exact, TAIL = 1, HEAD = 0\<rparr>] =
     Inr (heap_of [[1, 2, 3], [11, 12, 13]],
       [\<lparr>CONSTRAINT = loose, TAIL = 0, HEAD = 1\<rparr>,
        \<lparr>CONSTRAINT = get_reverse loose, TAIL = 1, HEAD = 0\<rparr>,
        \<lparr>CONSTRAINT = exact, TAIL = 0, HEAD = 1\<rparr>]) \<and>
   ac_step [0] (heap_of [[1, 2, 3], [11, 12, 13]]) [0, 1] [loose, exact]
       [\<lparr>CONSTRAINT = loose, TAIL = 0, HEAD = 1\<rparr>,
        \<lparr>CONSTRAINT = get_reverse loose, TAIL = 1, HEAD = 0\<rparr>,
        \<lparr>CONSTRAINT = exact, TAIL = 0, HEAD = 1\<rparr>] =
     Inr (heap_of [[2, 3], [11, 12, 13]],
       [\<lparr>CONSTRAINT = get_reverse loose, TAIL = 1, HEAD = 0\<rparr>,
        \<lparr>CONSTRAINT = exact, TAIL = 0, HEAD = 1\<rparr>])"
  by (auto simp: chain_simps run_simps)

text \<open>
  C6, as the code has it: when every constraint is about meetings of the problem and the
  two filters return and leave some meeting with an empty domain, \<open>solve\<close> returns
  \<open>None\<close> and raises nothing. The search runs all the same, there is no test for an empty
  domain before it: it makes no tentative assignment if and only if the empty domain is
  that of meeting 0.
\<close>

theorem solve_empty_domain:
  assumes "filtered sched h n date_range cs = Inr ds"
    and "[] \<in> set ds"
    and "\<forall>c\<in>set cs. in_range c (nat n)"
  shows "(\<exists>h'. solve sched h n date_range cs = Inr (h', None)) \<and>
         (\<exists>k. search_assignments sched h n date_range cs = Inr k \<and>
              (k = 0) = (ds ! 0 = []))"
proof -
  from assms(1) obtain h1 doms h2 where
    nc: "node_consistency h (replicate (nat n) date_range) cs = Inr (h1, doms)"
    and ac: "arc_consistency sched h1 doms cs = Inr h2"
    and ds: "ds = map (objs h2) doms"
    by (auto simp: filtered_def split: sum.splits)
  from node_consistency_frame(1) [OF nc] ds have len: "length ds = nat n" by simp
  let ?a = "replicate (nat n) (None :: datetime option)"
  from assms(2) obtain k where k: "k < length ds" "ds ! k = []"
    by (auto simp: in_set_conv_nth)
  with len have ex: "\<exists>k<length ?a. ?a ! k = None \<and> ds ! k = []" by auto
  have "recursive_csp_backtracker ?a (nat n) ds cs = Inr (?a, None)"
    using search_empty_domain(1) [of cs ?a ds "nat n"] assms(3) len ex by simp
  with nc ac ds have s: "solve sched h n date_range cs = Inr (h2, None)"
    by (simp add: solve_def csp_backtracker_def)
  from k len have pos: "0 < nat n" by auto
  then have fu: "first_unassigned ?a = Some 0" by (rule first_unassigned_replicate)
  from pos len fu have t: "tentative_rec ?a (nat n) ds cs
                             = tentative_try ?a (nat n) ds cs 0 (ds ! 0)"
    by (simp add: tentative_rec.simps)
  have z: "(tentative_rec ?a (nat n) ds cs = 0) = (ds ! 0 = [])"
  proof (cases "ds ! 0")
    case Nil
    with t show ?thesis by simp
  next
    case (Cons d rest)
    with t pos show ?thesis by simp
  qed
  from assms(1) have sa: "search_assignments sched h n date_range cs
                            = Inr (tentative_rec ?a (nat n) ds cs)"
    by (simp add: search_assignments_def)
  from sa z have "\<exists>k. search_assignments sched h n date_range cs = Inr k \<and>
                      (k = 0) = (ds ! 0 = [])"
    by (intro exI [of _ "tentative_rec ?a (nat n) ds cs"] conjI)
  moreover from s have "\<exists>h'. solve sched h n date_range cs = Inr (h', None)"
    by (intro exI [of _ h2])
  ultimately show ?thesis by (intro conjI)
qed

text \<open>Two meetings, day 1 as the only candidate, and "meeting 0 after day 1": the
  domain of meeting 0 is emptied, and the search assigns nothing.\<close>

theorem solve_empty_domain_witness:
  "filtered [] (heap_of [[1]]) 2 (SetRef 0) [Unary 0 ((<) 1)] = Inr [[], [1]] \<and>
   [] \<in> set [[], [1::int]] \<and>
   in_range (Unary 0 ((<) 1)) (nat 2) \<and>
   solve [] (heap_of [[1]]) 2 (SetRef 0) [Unary 0 ((<) 1)] = Inr (heap_of [[1], [], [1]], None) \<and>
   search_assignments [] (heap_of [[1]]) 2 (SetRef 0) [Unary 0 ((<) 1)] = Inr 0"
proof -
  have f: "filtered [] (heap_of [[1]]) 2 (SetRef 0) [Unary 0 ((<) 1)] = Inr [[], [1]]"
    by (simp add: run_simps numeral_2_eq_2)
  have e: "[] \<in> set [[], [1::int]]" by simp
  have r: "\<forall>c\<in>set [Unary 0 ((<) 1)]. in_range c (nat 2)" by simp
  have s: "solve [] (heap_of [[1]]) 2 (SetRef 0) [Unary 0 ((<) 1)] = Inr (heap_of [[1], [], [1]], None)"
    by (auto simp: run_simps numeral_2_eq_2)
  from solve_empty_domain [OF f e r] f s show ?thesis by auto
qed

text \<open>
  C6 as stated fails in two ways, each on two meetings with day 1 as the only candidate.

  No tentative assignment of any value to any variable: with the one constraint "meeting
  1 after day 1" the domain of meeting 1 is emptied, and the search assigns day 1 to
  meeting 0 before it finds no value for meeting 1 and returns \<open>None\<close>.

  Never an exception: with "meeting 0 after day 1", "meeting 1 not on day 1" and "meeting
  1 after day 3" no schedule exists. \<open>node_consistency\<close> copies the candidate set for each
  meeting (to the addresses 1 and 2), the pass for meeting 0 empties its copy, and the
  pass for meeting 1 raises \<open>KeyError\<close> at the second \<open>remove\<close> of day 1; \<open>solve\<close> raises
  it. So the filters must return for the claim to hold.
\<close>

theorem solve_empty_domain_counterexample:
  "filtered [] (heap_of [[1]]) 2 (SetRef 0) [Unary 1 ((<) 1)] = Inr [[1], []] \<and>
   solve [] (heap_of [[1]]) 2 (SetRef 0) [Unary 1 ((<) 1)] = Inr (heap_of [[1], [1], []], None) \<and>
   search_assignments [] (heap_of [[1]]) 2 (SetRef 0) [Unary 1 ((<) 1)] = Inr 1 \<and>
   copy_all (heap_of [[1]]) [SetRef 0, SetRef 0] = Inr (heap_of [[1], [1], [1]], [1, 2]) \<and>
   nc_dates (heap_of [[1], [1], [1]]) 1 0 [1]
       [Unary 0 ((<) 1), Unary 1 ((\<noteq>) 1), Unary 1 ((<) 3)]
     = Inr (heap_of [[1], [], [1]]) \<and>
   nc_dates (heap_of [[1], [], [1]]) 2 1 [1]
       [Unary 0 ((<) 1), Unary 1 ((\<noteq>) 1), Unary 1 ((<) 3)]
     = Inl KeyError \<and>
   solve [] (heap_of [[1]]) 2 (SetRef 0)
       [Unary 0 ((<) 1), Unary 1 ((\<noteq>) 1), Unary 1 ((<) 3)]
     = Inl KeyError"
  by (auto simp: run_simps numeral_2_eq_2)

text \<open>
  C7: a call of \<open>solve\<close> with one shared candidate set, a set the caller holds at
  address \<open>p\<close>, that returns leaves that set with the elements it had. The list of
  domains that \<open>node_consistency\<close> hands on and \<open>arc_consistency\<close> works on holds one
  reference per meeting; the references are pairwise different and different from \<open>p\<close>,
  so that, whatever the store is at that moment, removing a value through the reference
  of one meeting changes neither the domain of another meeting nor the caller's set.
\<close>

theorem solve_keeps_shared_set:
  assumes "p < nxt h" and "solve sched h n (SetRef p) cs = Inr (h', r)"
  shows "objs h' p = objs h p \<and>
         (\<exists>h1 doms.
            node_consistency h (replicate (nat n) (SetRef p)) cs = Inr (h1, doms) \<and>
            arc_consistency sched h1 doms cs = Inr h' \<and>
            length doms = nat n \<and> distinct doms \<and> p \<notin> set doms \<and>
            (\<forall>i<length doms. \<forall>j<length doms. \<forall>g d g'.
               i \<noteq> j \<longrightarrow> set_remove g (doms ! i) d = Inr g' \<longrightarrow>
               objs g' (doms ! j) = objs g (doms ! j) \<and> objs g' p = objs g p))"
proof -
  from assms(2) obtain h1 doms where
    nc: "node_consistency h (replicate (nat n) (SetRef p)) cs = Inr (h1, doms)"
    and ac: "arc_consistency sched h1 doms cs = Inr h'"
    by (auto simp: solve_def csp_backtracker_def split: sum.splits)
  note fr = node_consistency_frame [OF nc]
  from fr(1) have doms: "doms = [nxt h ..< nxt h + nat n]" by simp
  then have len: "length doms = nat n" and dist: "distinct doms" by simp_all
  from doms assms(1) have notin: "p \<notin> set doms" by simp
  from fr(2) assms(1) have "objs h1 p = objs h p" by simp
  with arc_consistency_frame [OF ac notin] have keep: "objs h' p = objs h p" by simp
  have indep: "objs g' (doms ! j) = objs g (doms ! j) \<and> objs g' p = objs g p"
    if "i < length doms" "j < length doms" "i \<noteq> j" "set_remove g (doms ! i) d = Inr g'"
    for i j g d g'
  proof -
    from that(1-3) dist have "doms ! j \<noteq> doms ! i" by (simp add: nth_eq_iff_index_eq)
    moreover from that(1) notin have "p \<noteq> doms ! i" by auto
    ultimately show ?thesis using set_remove_frame [OF that(4)] by simp
  qed
  from nc ac len dist notin keep indep show ?thesis by blast
qed

theorem solve_keeps_shared_set_witness:
  "0 < nxt (heap_of [[1, 2]]) \<and>
   solve [] (heap_of [[1, 2]]) 2 (SetRef 0) [Unary 0 ((<) 1), Binary 1 0 (<)]
     = Inr (heap_of [[1, 2], [2], [1]], Some [Some 2, Some 1]) \<and>
   objs (heap_of [[1, 2], [2], [1]]) 0 = objs (heap_of [[1, 2]]) 0"
proof -
  have a: "0 < nxt (heap_of [[1, 2]])" by (simp add: run_simps)
  have run: "solve [] (heap_of [[1, 2]]) 2 (SetRef 0) [Unary 0 ((<) 1), Binary 1 0 (<)]
               = Inr (heap_of [[1, 2], [2], [1]], Some [Some 2, Some 1])"
    by (simp add: run_simps numeral_2_eq_2)
  from solve_keeps_shared_set [OF a run] a run show ?thesis by blast
qed

text \<open>
  C8: constructing an Arc from a constraint that is not binary, one whose \<open>R_VAL\<close> is the
  sentinel of a unary constraint and not a variable index, raises \<open>ValueError\<close>; no Arc
  object results. Conversely every binary constraint yields its Arc.
\<close>

theorem Arc_init_unary_raises:
  "(Arc_init c = Inl ValueError) = (arity c = 1) \<and>
   (\<exists>a. Arc_init c = Inr a) = (arity c = 2) \<and>
   Arc_init (Unary l p) = Inl ValueError"
  by (cases c) (simp_all add: Arc_init_def)

text \<open>
  On the domains days 1, 2, 3 of meeting 0 and days 11, 12, 13 of meeting 1 under
  \<open>loose\<close> and \<open>exact\<close>, popping the first Arc of the worklist every time, the first
  run of \<open>arc_consistency\<close> leaves day 3 for meeting 0 and the days 12 and 13 for meeting
  1; a second run on that result removes day 12, which no day of meeting 0 supports under
  \<open>exact\<close>.
\<close>

lemma arc_consistency_second_run_example:
  "arc_consistency [] (heap_of [[1, 2, 3], [11, 12, 13]]) [0, 1] [loose, exact]
     = Inr (heap_of [[3], [12, 13]]) \<and>
   arc_consistency [] (heap_of [[3], [12, 13]]) [0, 1] [loose, exact]
     = Inr (heap_of [[3], [13]])"
  by (auto simp: chain_simps run_simps)

text \<open>
  C9, the failing input, for the part on arc consistency: the same domains and
  constraints. In whatever order the first run pops its worklist (\<open>s1\<close>) it returns,
  and in whatever order the second run pops its own (\<open>s2\<close>) it returns with domains
  that are smaller than the first run left them: the second run removes a further value.
\<close>

theorem arc_consistency_second_run_removes:
  "\<exists>h1. arc_consistency s1 (heap_of [[1, 2, 3], [11, 12, 13]]) [0, 1] [loose, exact] = Inr h1 \<and>
     (\<exists>h2. arc_consistency s2 h1 [0, 1] [loose, exact] = Inr h2 \<and>
        doms_size h2 [0, 1] < doms_size h1 [0, 1])"
proof -
  let ?arcs = "[arc_loose, arc_loose_rev, arc_exact, arc_exact_rev]"
  from chain_inv_loop [OF chain_inv_init refl refl, of s1] obtain h1 where
    r1: "ac_loop s1 (heap_of [[1, 2, 3], [11, 12, 13]]) [0, 1] [loose, exact] ?arcs = Inr h1"
    and fin: "chain_inv h1 []" by blast
  from fin have d: "\<forall>p\<in>set [0, Suc 0]. distinct (objs h1 p)"
    by (simp add: chain_inv_def)
  with ac_loop_returns [OF chain_arcs_ok, of h1 s2] obtain h2 where
    r2: "ac_loop s2 h1 [0, 1] [loose, exact] ?arcs = Inr h2" by auto
  have ok: "arc_ok [0, 1] arc_exact_rev" using chain_arcs_ok(1) by simp
  have dt: "distinct (objs h1 ([0, 1] ! TAIL arc_exact_rev))"
    using d by (simp add: arc_exact_rev_def)
  have un: "\<exists>t\<in>set (objs h1 ([0, 1] ! TAIL arc_exact_rev)).
              \<not> supported h1 ([0, 1] ! HEAD arc_exact_rev) (CONSTRAINT arc_exact_rev) t"
    using chain_final_unsupported [OF fin] by (simp add: arc_exact_rev_def)
  have "doms_size h2 [0, 1] < doms_size h1 [0, 1]"
    by (rule ac_loop_removes [OF ok dt un r2]) simp
  with r1 r2 show ?thesis unfolding arc_consistency_def init_arcs_chain by simp
qed

text \<open>
  C10, as the code has it: with \<open>n_meetings\<close> 0 (or below), whatever the candidate sets,
  \<open>solve\<close> returns the empty list when no constraint has an arity above 1, and raises
  \<open>IndexError\<close> when one has: its Arc is revised against an empty list of domains.
\<close>

theorem solve_no_meetings:
  assumes "n \<le> 0"
  shows "solve sched h n date_range cs =
           (if \<forall>c\<in>set cs. arity c \<le> 1 then Inr (h, Some []) else Inl IndexError)"
proof -
  from assms have n: "nat n = 0" by simp
  obtain arcs where ia: "init_arcs [] cs = Inr arcs"
    and ne: "(\<exists>c\<in>set cs. 1 < arity c) \<longrightarrow> arcs \<noteq> []"
    and em: "(\<forall>c\<in>set cs. arity c \<le> 1) \<longrightarrow> arcs = []"
    using init_arcs_result [of "[]" cs] by blast
  show ?thesis
  proof (cases "\<forall>c\<in>set cs. arity c \<le> 1")
    case True
    with em have "arcs = []" by simp
    with ia have "arc_consistency sched h [] cs = Inr h"
      by (simp add: arc_consistency_def ac_loop.simps)
    with True n show ?thesis
      by (simp add: solve_def csp_backtracker_def node_consistency_Nil
            recursive_csp_backtracker.simps)
  next
    case False
    then have "\<exists>c\<in>set cs. 1 < arity c" by (auto simp: not_le)
    with ne have "arcs \<noteq> []" by simp
    with ia have "arc_consistency sched h [] cs = Inl IndexError"
      by (simp add: arc_consistency_def ac_loop_no_domains)
    with False n show ?thesis
      by (simp add: solve_def csp_backtracker_def node_consistency_Nil)
  qed
qed

theorem solve_no_meetings_witness:
  "(0::int) \<le> 0 \<and>
   solve [] (heap_of [[1]]) 0 (SetRef 0) [Unary 0 ((<) 5)] = Inr (heap_of [[1]], Some [])"
  using solve_no_meetings [of 0 "[]" "heap_of [[1]]" "SetRef 0" "[Unary 0 ((<) 5)]"]
  by simp

text \<open>C10 as stated, regardless of the constraint collection, fails with one binary
  constraint, "meeting 0 before meeting 1".\<close>

theorem solve_no_meetings_counterexample:
  "solve [] (heap_of [[1]]) 0 (SetRef 0) [Binary 0 1 (<)] = Inl IndexError"
  by (simp add: run_simps)

end
